theory Spec2Isabelle
  imports Main
begin

section \<open>Python primitives used by the commands\<close>

text \<open>
  Exceptions are values: every operation that can raise in Python returns
  \<open>py_error + 'a\<close>, with \<open>Inl\<close> for the exception.
\<close>

datatype py_error = KeyError | ValueError | AttributeError

text \<open>Sequencing of statements that may raise: the first exception aborts the rest.\<close>

definition and_then :: "py_error + 'a \<Rightarrow> ('a \<Rightarrow> py_error + 'b) \<Rightarrow> py_error + 'b" where
  "and_then r f = (case r of Inl e \<Rightarrow> Inl e | Inr x \<Rightarrow> f x)"

text \<open>\<^verbatim>\<open>d.get(k)\<close>: the stored object, or Python's None when the key is absent.\<close>

definition dict_get :: "('k \<rightharpoonup> 'a) \<Rightarrow> 'k \<Rightarrow> 'a option" where
  "dict_get d k = d k"

text \<open>\<^verbatim>\<open>del d[k]\<close>: raises KeyError when the key is absent.\<close>

definition dict_delitem :: "('k \<rightharpoonup> 'a) \<Rightarrow> 'k \<Rightarrow> py_error + ('k \<rightharpoonup> 'a)" where
  "dict_delitem d k = (if k \<in> dom d then Inr (d(k := None)) else Inl KeyError)"

text \<open>\<^verbatim>\<open>d.pop(k)\<close> (no default): raises KeyError when the key is absent.\<close>

definition dict_pop :: "('k \<rightharpoonup> 'a) \<Rightarrow> 'k \<Rightarrow> py_error + ('k \<rightharpoonup> 'a)" where
  "dict_pop d k = (if k \<in> dom d then Inr (d(k := None)) else Inl KeyError)"

text \<open>\<^verbatim>\<open>xs.remove(x)\<close>: deletes the first occurrence, raises ValueError when there is none.\<close>

definition list_remove :: "'a list \<Rightarrow> 'a \<Rightarrow> py_error + 'a list" where
  "list_remove xs x = (if x \<in> set xs then Inr (remove1 x xs) else Inl ValueError)"

text \<open>
  Truth value of the result of \<^verbatim>\<open>d.get(k)\<close>: None and the empty list are false.
\<close>

definition truthy :: "'a list option \<Rightarrow> bool" where
  "truthy r = (case r of None \<Rightarrow> False | Some xs \<Rightarrow> xs \<noteq> [])"

text \<open>
  \<^verbatim>\<open>x is []\<close>: the display \<^verbatim>\<open>[]\<close> allocates a new list object at each evaluation, and
  \<^verbatim>\<open>is\<close> compares object identities. The new object is none of the objects that existed
  before, so the comparison is false whatever \<open>x\<close> is (None, or a list of any content).
\<close>

definition is_new_empty_list :: "'a list option \<Rightarrow> bool" where
  "is_new_empty_list r = False"

text \<open>\<^verbatim>\<open>x in xs\<close> for the result of a \<^verbatim>\<open>get\<close> that is known to be truthy.\<close>

definition contains :: "'a list option \<Rightarrow> 'a \<Rightarrow> bool" where
  "contains r x = (case r of None \<Rightarrow> False | Some xs \<Rightarrow> x \<in> set xs)"


text \<open>
  Modelled from the spec: the declaration of \<^verbatim>\<open>PortModel.connected_ports\<close> is not among the
  sources. The spec describes it as a mapping from the peer node's identifier to the
  sequence of peer port names, into which connecting appends under a key that need not
  exist yet; this is the behaviour of a \<^verbatim>\<open>defaultdict(list)\<close>, whose subscription
  \<^verbatim>\<open>d[k]\<close> stores a new empty list under an absent key and returns it.
\<close>

definition defaultdict_getitem :: "('k \<rightharpoonup> 'a list) \<Rightarrow> 'k \<Rightarrow> 'a list \<times> ('k \<rightharpoonup> 'a list)" where
  "defaultdict_getitem d k = (case d k of Some xs \<Rightarrow> (xs, d) | None \<Rightarrow> ([], d(k \<mapsto> [])))"

text \<open>\<^verbatim>\<open>d[k].append(x)\<close>: the list stored under \<open>k\<close> is extended in place.\<close>

definition getitem_append :: "('k \<rightharpoonup> 'a list) \<Rightarrow> 'k \<Rightarrow> 'a \<Rightarrow> ('k \<rightharpoonup> 'a list)" where
  "getitem_append d k x = (case defaultdict_getitem d k of (xs, d') \<Rightarrow> d'(k \<mapsto> xs @ [x]))"

text \<open>
  \<^verbatim>\<open>port_names.remove(x)\<close> on the object returned by \<^verbatim>\<open>get\<close>: None has no such method.
\<close>

definition remove_from :: "'a list option \<Rightarrow> 'a \<Rightarrow> py_error + 'a list" where
  "remove_from r x = (case r of None \<Rightarrow> Inl AttributeError | Some xs \<Rightarrow> list_remove xs x)"

text \<open>
  A list object mutated in place is seen through the dictionary as long as the
  dictionary still holds it under the key it was fetched from.
\<close>

definition list_mutated :: "('k \<rightharpoonup> 'a list) \<Rightarrow> 'k \<Rightarrow> 'a list \<Rightarrow> ('k \<rightharpoonup> 'a list)" where
  "list_mutated d k xs = (if k \<in> dom d then d(k \<mapsto> xs) else d)"

section \<open>The graph document\<close>

type_synonym node_id = string
type_synonym node_ref = nat
type_synonym port_ref = nat

datatype port_type = IN_PORT | OUT_PORT

text \<open>
  A Port object with its model: the node it belongs to (\<^verbatim>\<open>port.node()\<close>), its name
  (\<^verbatim>\<open>port.name()\<close>), its direction (\<^verbatim>\<open>port.type()\<close>), \<^verbatim>\<open>port.model.visible\<close> and
  \<^verbatim>\<open>port.model.connected_ports\<close>; \<open>has_text_item\<close> tells whether the node view returns
  a text item for the port's view (\<^verbatim>\<open>get_input_text_item\<close>, \<^verbatim>\<open>get_output_text_item\<close>).
\<close>

record port_obj =
  port_node :: node_ref
  port_name :: string
  port_type :: port_type
  port_visible :: bool
  connected_ports :: "node_id \<rightharpoonup> string list"
  has_text_item :: bool


text \<open>
  A node object with what the commands read and write of its model, its view and its
  widget in the properties bin:
  \<^item> \<open>node_ident\<close> is \<^verbatim>\<open>node.id\<close>;
  \<^item> \<open>model_properties\<close> is the model's mapping from property name to value, read by
    \<^verbatim>\<open>get_property\<close> and written by \<^verbatim>\<open>set_property\<close>; the position is its property
    \<^verbatim>\<open>pos\<close> (\<^verbatim>\<open>node.model.pos\<close>);
  \<^item> \<open>view_widgets\<close> is \<^verbatim>\<open>view.widgets\<close>, from name to the widget's \<^verbatim>\<open>value\<close>; None when the
    view has no attribute \<^verbatim>\<open>widgets\<close>;
  \<^item> \<open>view_properties\<close> is the dictionary \<^verbatim>\<open>view.properties\<close>;
  \<^item> \<open>view_attrs\<close> holds the attributes of the view assigned by \<^verbatim>\<open>setattr\<close> or directly
    (\<^verbatim>\<open>view.xy_pos\<close>);
  \<^item> \<open>bin_widget\<close> is \<^verbatim>\<open>prop_bin.prop_widget(node)\<close>, from name to the value
    \<^verbatim>\<open>get_widget(name).get_value()\<close>; None when the bin shows no widget for the node.
\<close>

record 'v node_obj =
  node_ident :: node_id
  model_properties :: "string \<Rightarrow> 'v"
  view_widgets :: "(string \<rightharpoonup> 'v) option"
  view_properties :: "string \<rightharpoonup> 'v"
  view_attrs :: "string \<rightharpoonup> 'v"
  bin_widget :: "(string \<Rightarrow> 'v) option"

text \<open>
  Calls into the views (the notifications of the spec's ViewSync), recorded in call order.
\<close>

datatype 'v view_call =
    WidgetSetValue node_ref string 'v
  | ViewSetAttr node_ref string 'v
  | PropBinSetValue node_ref string 'v
  | ViewDelete node_ref
  | ViewerAddNode node_ref "'v option"
  | SceneAddItem node_ref
  | PortViewConnectTo port_ref port_ref
  | PortViewDisconnectFrom port_ref port_ref
  | PortViewSetVisible port_ref bool
  | TextItemSetVisible port_ref bool
  | NodeViewPostInit node_ref

text \<open>
  The state the commands act on: \<open>nodes\<close> is \<^verbatim>\<open>graph.model.nodes\<close> (node id to node
  object); \<open>node_objs\<close> and \<open>port_objs\<close> are the store of node and port objects, by
  reference, so that two commands (or the two ends of one command) that hold the same
  object see each other's writes; \<open>view_calls\<close> is the record of calls into the views.
\<close>

record 'v graph_state =
  nodes :: "node_id \<rightharpoonup> node_ref"
  node_objs :: "node_ref \<Rightarrow> 'v node_obj"
  port_objs :: "port_ref \<Rightarrow> port_obj"
  view_calls :: "'v view_call list"

subsection \<open>Accessors\<close>

text \<open>\<^verbatim>\<open>port.node().id\<close>\<close>

definition port_node_id :: "'v graph_state \<Rightarrow> port_ref \<Rightarrow> node_id" where
  "port_node_id s p = node_ident (node_objs s (port_node (port_objs s p)))"

text \<open>\<^verbatim>\<open>port.name()\<close>\<close>

definition name_of :: "'v graph_state \<Rightarrow> port_ref \<Rightarrow> string" where
  "name_of s p = port_name (port_objs s p)"

text \<open>\<^verbatim>\<open>port.model.connected_ports\<close>, read and written.\<close>

definition conn :: "'v graph_state \<Rightarrow> port_ref \<Rightarrow> (node_id \<rightharpoonup> string list)" where
  "conn s p = connected_ports (port_objs s p)"

definition set_conn :: "port_ref \<Rightarrow> (node_id \<rightharpoonup> string list) \<Rightarrow> 'v graph_state \<Rightarrow> 'v graph_state" where
  "set_conn p d s = s\<lparr>port_objs := (port_objs s)(p := (port_objs s p)\<lparr>connected_ports := d\<rparr>)\<rparr>"

text \<open>A call into a view.\<close>

definition view_call :: "'v view_call \<Rightarrow> 'v graph_state \<Rightarrow> 'v graph_state" where
  "view_call c s = s\<lparr>view_calls := view_calls s @ [c]\<rparr>"

section \<open>Port-connected and port-disconnected commands\<close>

text \<open>\<^verbatim>\<open>PortConnectedCmd.undo\<close>, with \<open>source\<close> and \<open>target\<close> the command's two ports.\<close>

definition PortConnectedCmd_undo :: "port_ref \<Rightarrow> port_ref \<Rightarrow> 'v graph_state \<Rightarrow> py_error + 'v graph_state" where
  "PortConnectedCmd_undo source target s =
    (let src_id = port_node_id s source;
         trg_id = port_node_id s target;
         port_names = dict_get (conn s source) trg_id
     in
     and_then (if is_new_empty_list port_names
               then and_then (dict_delitem (conn s source) trg_id) (\<lambda>d. Inr (set_conn source d s))
               else Inr s)
     (\<lambda>s1.
     and_then (if truthy port_names \<and> contains port_names (name_of s1 target)
               then and_then (remove_from port_names (name_of s1 target))
                      (\<lambda>xs. Inr (set_conn source (list_mutated (conn s1 source) trg_id xs) s1))
               else Inr s1)
     (\<lambda>s2.
     let port_names' = dict_get (conn s2 target) src_id in
     and_then (if is_new_empty_list port_names'
               then and_then (dict_delitem (conn s2 target) src_id) (\<lambda>d. Inr (set_conn target d s2))
               else Inr s2)
     (\<lambda>s3.
     and_then (if truthy port_names' \<and> contains port_names' (name_of s3 source)
               then and_then (remove_from port_names' (name_of s3 source))
                      (\<lambda>xs. Inr (set_conn target (list_mutated (conn s3 target) src_id xs) s3))
               else Inr s3)
     (\<lambda>s4. Inr (view_call (PortViewDisconnectFrom source target) s4))))))"

text \<open>\<^verbatim>\<open>PortConnectedCmd.redo\<close>\<close>

definition PortConnectedCmd_redo :: "port_ref \<Rightarrow> port_ref \<Rightarrow> 'v graph_state \<Rightarrow> py_error + 'v graph_state" where
  "PortConnectedCmd_redo source target s =
    (let src_id = port_node_id s source;
         trg_id = port_node_id s target;
         s1 = set_conn source (getitem_append (conn s source) trg_id (name_of s target)) s;
         s2 = set_conn target (getitem_append (conn s1 target) src_id (name_of s1 source)) s1
     in Inr (view_call (PortViewConnectTo source target) s2))"

text \<open>\<^verbatim>\<open>PortDisconnectedCmd.undo\<close>\<close>

definition PortDisconnectedCmd_undo :: "port_ref \<Rightarrow> port_ref \<Rightarrow> 'v graph_state \<Rightarrow> py_error + 'v graph_state" where
  "PortDisconnectedCmd_undo source target s =
    (let src_id = port_node_id s source;
         trg_id = port_node_id s target;
         s1 = set_conn source (getitem_append (conn s source) trg_id (name_of s target)) s;
         s2 = set_conn target (getitem_append (conn s1 target) src_id (name_of s1 source)) s1
     in Inr (view_call (PortViewConnectTo source target) s2))"

text \<open>\<^verbatim>\<open>PortDisconnectedCmd.redo\<close>\<close>

definition PortDisconnectedCmd_redo :: "port_ref \<Rightarrow> port_ref \<Rightarrow> 'v graph_state \<Rightarrow> py_error + 'v graph_state" where
  "PortDisconnectedCmd_redo source target s =
    (let src_id = port_node_id s source;
         trg_id = port_node_id s target;
         port_names = dict_get (conn s source) trg_id
     in
     and_then (if is_new_empty_list port_names
               then and_then (dict_delitem (conn s source) trg_id) (\<lambda>d. Inr (set_conn source d s))
               else Inr s)
     (\<lambda>s1.
     and_then (if truthy port_names \<and> contains port_names (name_of s1 target)
               then and_then (remove_from port_names (name_of s1 target))
                      (\<lambda>xs. Inr (set_conn source (list_mutated (conn s1 source) trg_id xs) s1))
               else Inr s1)
     (\<lambda>s2.
     let port_names' = dict_get (conn s2 target) src_id in
     and_then (if is_new_empty_list port_names'
               then and_then (dict_delitem (conn s2 target) src_id) (\<lambda>d. Inr (set_conn target d s2))
               else Inr s2)
     (\<lambda>s3.
     and_then (if truthy port_names' \<and> contains port_names' (name_of s3 source)
               then and_then (remove_from port_names' (name_of s3 source))
                      (\<lambda>xs. Inr (set_conn target (list_mutated (conn s3 target) src_id xs) s3))
               else Inr s3)
     (\<lambda>s4. Inr (view_call (PortViewDisconnectFrom source target) s4))))))"


section \<open>Property-changed command\<close>

text \<open>
  Modelled from the spec: \<^verbatim>\<open>NodeObject.get_property\<close> and \<^verbatim>\<open>NodeModel.set_property\<close> are not
  among the sources. The spec (4.1) has them read and write the node's mapping from
  property name to value, as direct structural edits.
\<close>

definition get_property :: "'v graph_state \<Rightarrow> node_ref \<Rightarrow> string \<Rightarrow> 'v" where
  "get_property s node name = model_properties (node_objs s node) name"

definition set_property :: "node_ref \<Rightarrow> string \<Rightarrow> 'v \<Rightarrow> 'v graph_state \<Rightarrow> 'v graph_state" where
  "set_property node name v s =
     s\<lparr>node_objs := (node_objs s)(node := (node_objs s node)
          \<lparr>model_properties := (model_properties (node_objs s node))(name := v)\<rparr>)\<rparr>"

text \<open>\<^verbatim>\<open>view.widgets[name].value = value\<close>\<close>

definition widget_set_value :: "node_ref \<Rightarrow> string \<Rightarrow> 'v \<Rightarrow> 'v graph_state \<Rightarrow> 'v graph_state" where
  "widget_set_value node name v s =
     view_call (WidgetSetValue node name v)
       (s\<lparr>node_objs := (node_objs s)(node := (node_objs s node)
            \<lparr>view_widgets := map_option (\<lambda>ws. ws(name \<mapsto> v)) (view_widgets (node_objs s node))\<rparr>)\<rparr>)"

text \<open>\<^verbatim>\<open>setattr(view, name, value)\<close>, and \<^verbatim>\<open>view.xy_pos = value\<close>\<close>

definition view_setattr :: "node_ref \<Rightarrow> string \<Rightarrow> 'v \<Rightarrow> 'v graph_state \<Rightarrow> 'v graph_state" where
  "view_setattr node name v s =
     view_call (ViewSetAttr node name v)
       (s\<lparr>node_objs := (node_objs s)(node := (node_objs s node)
            \<lparr>view_attrs := (view_attrs (node_objs s node))(name \<mapsto> v)\<rparr>)\<rparr>)"

text \<open>\<^verbatim>\<open>prop_wgt.set_value(value)\<close>\<close>

definition prop_wgt_set_value :: "node_ref \<Rightarrow> string \<Rightarrow> 'v \<Rightarrow> 'v graph_state \<Rightarrow> 'v graph_state" where
  "prop_wgt_set_value node name v s =
     view_call (PropBinSetValue node name v)
       (s\<lparr>node_objs := (node_objs s)(node := (node_objs s node)
            \<lparr>bin_widget := map_option (\<lambda>w. w(name := v)) (bin_widget (node_objs s node))\<rparr>)\<rparr>)"

text \<open>\<^verbatim>\<open>PropertyChangedCmd.set_node_prop\<close>\<close>

definition set_node_prop :: "node_ref \<Rightarrow> string \<Rightarrow> 'v \<Rightarrow> 'v graph_state \<Rightarrow> 'v graph_state" where
  "set_node_prop node name v s =
    (let s1 = set_property node name v s;
         s2 = (case view_widgets (node_objs s1 node) of
                 None \<Rightarrow> s1
               | Some ws \<Rightarrow>
                   if name \<in> dom ws
                   then (if ws name \<noteq> Some v then widget_set_value node name v s1 else s1)
                   else s1)
     in if name \<in> dom (view_properties (node_objs s2 node))
        then view_setattr node (if name = ''pos'' then ''xy_pos'' else name) v s2
        else s2)"

text \<open>\<^verbatim>\<open>PropertyChangedCmd.update_prop_bin\<close>\<close>

definition update_prop_bin :: "node_ref \<Rightarrow> string \<Rightarrow> 'v \<Rightarrow> 'v graph_state \<Rightarrow> 'v graph_state" where
  "update_prop_bin node name v s =
    (case bin_widget (node_objs s node) of
       None \<Rightarrow> s
     | Some w \<Rightarrow> if w name \<noteq> v then prop_wgt_set_value node name v s else s)"

text \<open>
  \<^verbatim>\<open>PropertyChangedCmd.undo\<close> and \<^verbatim>\<open>redo\<close>, for the command's node, property name, old
  and new value.
\<close>

definition PropertyChangedCmd_undo :: "node_ref \<Rightarrow> string \<Rightarrow> 'v \<Rightarrow> 'v \<Rightarrow> 'v graph_state \<Rightarrow> py_error + 'v graph_state" where
  "PropertyChangedCmd_undo node name old_val new_val s =
    (if old_val \<noteq> new_val
     then Inr (update_prop_bin node name old_val (set_node_prop node name old_val s))
     else Inr s)"

definition PropertyChangedCmd_redo :: "node_ref \<Rightarrow> string \<Rightarrow> 'v \<Rightarrow> 'v \<Rightarrow> 'v graph_state \<Rightarrow> py_error + 'v graph_state" where
  "PropertyChangedCmd_redo node name old_val new_val s =
    (if old_val \<noteq> new_val
     then Inr (update_prop_bin node name new_val (set_node_prop node name new_val s))
     else Inr s)"

section \<open>Node-moved command\<close>

text \<open>\<^verbatim>\<open>node.model.pos = value\<close>: the position is the model's property \<^verbatim>\<open>pos\<close>.\<close>

definition set_model_pos :: "node_ref \<Rightarrow> 'v \<Rightarrow> 'v graph_state \<Rightarrow> 'v graph_state" where
  "set_model_pos node v s = set_property node ''pos'' v s"

definition NodeMovedCmd_undo :: "node_ref \<Rightarrow> 'v \<Rightarrow> 'v \<Rightarrow> 'v graph_state \<Rightarrow> py_error + 'v graph_state" where
  "NodeMovedCmd_undo node pos prev_pos s =
     Inr (set_model_pos node prev_pos (view_setattr node ''xy_pos'' prev_pos s))"

definition NodeMovedCmd_redo :: "node_ref \<Rightarrow> 'v \<Rightarrow> 'v \<Rightarrow> 'v graph_state \<Rightarrow> py_error + 'v graph_state" where
  "NodeMovedCmd_redo node pos prev_pos s =
    (if pos = prev_pos then Inr s
     else Inr (set_model_pos node pos (view_setattr node ''xy_pos'' pos s)))"

section \<open>Node-added command\<close>

text \<open>
  Modelled from the spec: \<^verbatim>\<open>NodeObject.pos\<close> is not among the sources; the spec (4.4) has
  it give the node's own recorded position.
\<close>

definition node_pos :: "'v graph_state \<Rightarrow> node_ref \<Rightarrow> 'v" where
  "node_pos s node = get_property s node ''pos''"

text \<open>
  \<^verbatim>\<open>NodeAddedCmd.undo\<close>. The command's \<open>pos\<close> is None or a position (a pair of numbers,
  which is true as a condition); \<^verbatim>\<open>self.pos = self.pos or self.node.pos()\<close> updates the
  command itself, so the new \<open>pos\<close> is returned with the state. It is assigned before
  \<^verbatim>\<open>pop\<close> can raise.
\<close>

definition NodeAddedCmd_undo :: "node_ref \<Rightarrow> 'v option \<Rightarrow> 'v graph_state \<Rightarrow> py_error + ('v option \<times> 'v graph_state)" where
  "NodeAddedCmd_undo node pos s =
    (let pos' = (case pos of Some p \<Rightarrow> Some p | None \<Rightarrow> Some (node_pos s node)) in
     and_then (dict_pop (nodes s) (node_ident (node_objs s node)))
       (\<lambda>d. Inr (pos', view_call (ViewDelete node) (s\<lparr>nodes := d\<rparr>))))"

definition NodeAddedCmd_redo :: "node_ref \<Rightarrow> 'v option \<Rightarrow> 'v graph_state \<Rightarrow> py_error + 'v graph_state" where
  "NodeAddedCmd_redo node pos s =
     Inr (view_call (ViewerAddNode node pos)
            (s\<lparr>nodes := (nodes s)(node_ident (node_objs s node) \<mapsto> node)\<rparr>))"

section \<open>Port-visibility command\<close>

text \<open>\<^verbatim>\<open>PortVisibleCmd.set_visible\<close>\<close>

definition set_visible :: "port_ref \<Rightarrow> bool \<Rightarrow> 'v graph_state \<Rightarrow> 'v graph_state" where
  "set_visible port visible s =
    (let s1 = s\<lparr>port_objs := (port_objs s)(port := (port_objs s port)\<lparr>port_visible := visible\<rparr>)\<rparr>;
         s2 = view_call (PortViewSetVisible port visible) s1;
         node = port_node (port_objs s2 port);
         text_item = (if port_type (port_objs s2 port) = IN_PORT then has_text_item (port_objs s2 port)
                      else if port_type (port_objs s2 port) = OUT_PORT then has_text_item (port_objs s2 port)
                      else False);
         s3 = (if text_item then view_call (TextItemSetVisible port visible) s2 else s2)
     in view_call (NodeViewPostInit node) s3)"

definition PortVisibleCmd_undo :: "port_ref \<Rightarrow> bool \<Rightarrow> 'v graph_state \<Rightarrow> py_error + 'v graph_state" where
  "PortVisibleCmd_undo port visible s = Inr (set_visible port visible s)"

definition PortVisibleCmd_redo :: "port_ref \<Rightarrow> bool \<Rightarrow> 'v graph_state \<Rightarrow> py_error + 'v graph_state" where
  "PortVisibleCmd_redo port visible s = Inr (set_visible port (\<not> visible) s)"


section \<open>Observations on connection sets\<close>

text \<open>The names a connection mapping lists under a key: none when the key is absent.\<close>

definition names_at :: "('k \<rightharpoonup> 'a list) \<Rightarrow> 'k \<Rightarrow> 'a list" where
  "names_at d k = (case d k of Some xs \<Rightarrow> xs | None \<Rightarrow> [])"

text \<open>
  The first occurrence of a name taken out of the list under a key, the key itself kept.
\<close>

definition drop_name :: "('k \<rightharpoonup> 'a list) \<Rightarrow> 'k \<Rightarrow> 'a \<Rightarrow> ('k \<rightharpoonup> 'a list)" where
  "drop_name d k x = (case d k of Some xs \<Rightarrow> d(k \<mapsto> remove1 x xs) | None \<Rightarrow> d)"

text \<open>A command transformation run \<open>n\<close> times in a row, stopping at the first exception.\<close>

primrec repeat_cmd :: "nat \<Rightarrow> ('s \<Rightarrow> py_error + 's) \<Rightarrow> 's \<Rightarrow> py_error + 's" where
  "repeat_cmd 0 f s = Inr s"
| "repeat_cmd (Suc n) f s = and_then (f s) (repeat_cmd n f)"

section \<open>Example documents\<close>

text \<open>
  Two nodes \<^verbatim>\<open>n1\<close> and \<^verbatim>\<open>n2\<close> (objects 0 and 1). Port 0 is the output \<^verbatim>\<open>out\<close> of \<^verbatim>\<open>n1\<close>,
  port 1 the input \<^verbatim>\<open>in\<close> of \<^verbatim>\<open>n2\<close>, port 2 an output of \<^verbatim>\<open>n2\<close> that is also named \<^verbatim>\<open>in\<close>.
  Nothing is connected.
\<close>

definition example_node :: "node_id \<Rightarrow> nat node_obj" where
  "example_node i = \<lparr>node_ident = i, model_properties = (\<lambda>_. 0), view_widgets = None,
     view_properties = Map.empty, view_attrs = Map.empty, bin_widget = None\<rparr>"

definition example_port :: "node_ref \<Rightarrow> string \<Rightarrow> port_type \<Rightarrow> port_obj" where
  "example_port n nm ty = \<lparr>port_node = n, port_name = nm, port_type = ty, port_visible = True,
     connected_ports = Map.empty, has_text_item = True\<rparr>"

definition example_state :: "nat graph_state" where
  "example_state =
     \<lparr>nodes = [''n1'' \<mapsto> 0, ''n2'' \<mapsto> 1],
      node_objs = (\<lambda>_. example_node ''n2'')(0 := example_node ''n1''),
      port_objs = (\<lambda>_. example_port 1 ''in'' OUT_PORT)
                    (0 := example_port 0 ''out'' OUT_PORT, 1 := example_port 1 ''in'' IN_PORT),
      view_calls = []\<rparr>"


text \<open>The same document with port 0 and port 1 connected once.\<close>

definition example_connected :: "nat graph_state" where
  "example_connected =
     example_state\<lparr>port_objs := (port_objs example_state)
       (0 := (example_port 0 ''out'' OUT_PORT)\<lparr>connected_ports := [''n2'' \<mapsto> [''in'']]\<rparr>,
        1 := (example_port 1 ''in'' IN_PORT)\<lparr>connected_ports := [''n1'' \<mapsto> [''out'']]\<rparr>)\<rparr>"

section \<open>What the port commands do to the connection sets\<close>

text \<open>
  The two transformations of the connection sets, written as functions of the state;
  the port commands are shown below to compute them.
\<close>

definition disconnected :: "port_ref \<Rightarrow> port_ref \<Rightarrow> 'v graph_state \<Rightarrow> 'v graph_state" where
  "disconnected source target s =
     (let s1 = set_conn source (drop_name (conn s source) (port_node_id s target) (name_of s target)) s
      in set_conn target (drop_name (conn s1 target) (port_node_id s source) (name_of s source)) s1)"

definition connected :: "port_ref \<Rightarrow> port_ref \<Rightarrow> 'v graph_state \<Rightarrow> 'v graph_state" where
  "connected source target s =
     (let s1 = set_conn source (getitem_append (conn s source) (port_node_id s target) (name_of s target)) s
      in set_conn target (getitem_append (conn s1 target) (port_node_id s source) (name_of s source)) s1)"

section \<open>Node-removed command\<close>

text \<open>A \<^verbatim>\<open>for\<close> loop whose body may raise: the first exception ends the loop.\<close>

primrec for_each :: "('a \<Rightarrow> 's \<Rightarrow> py_error + 's) \<Rightarrow> 'a list \<Rightarrow> 's \<Rightarrow> py_error + 's" where
  "for_each body [] s = Inr s"
| "for_each body (x # xs) s = and_then (body x s) (for_each body xs)"

text \<open>
  Modelled from the spec: \<^verbatim>\<open>Port.connect_to\<close> and \<^verbatim>\<open>Port.disconnect_from\<close> are not among
  the sources. The spec (4.1, 4.5) has connect and disconnect touch both endpoints'
  connection sets in one call, as the transformations of the port-connected command do.
\<close>

definition Port_connect_to :: "port_ref \<Rightarrow> port_ref \<Rightarrow> 'v graph_state \<Rightarrow> py_error + 'v graph_state" where
  "Port_connect_to port p s = PortConnectedCmd_redo port p s"

definition Port_disconnect_from :: "port_ref \<Rightarrow> port_ref \<Rightarrow> 'v graph_state \<Rightarrow> py_error + 'v graph_state" where
  "Port_disconnect_from port p s = PortConnectedCmd_undo port p s"

text \<open>
  \<^verbatim>\<open>NodeRemovedCmd.undo\<close> and \<^verbatim>\<open>redo\<close>; \<open>inputs\<close> and \<open>outputs\<close> are the lists the
  constructor captured, of each port of the node with the ports connected to it.
\<close>

definition NodeRemovedCmd_undo ::
  "node_ref \<Rightarrow> (port_ref \<times> port_ref list) list \<Rightarrow> (port_ref \<times> port_ref list) list \<Rightarrow>
   'v graph_state \<Rightarrow> py_error + 'v graph_state" where
  "NodeRemovedCmd_undo node inputs outputs s =
    (let s1 = s\<lparr>nodes := (nodes s)(node_ident (node_objs s node) \<mapsto> node)\<rparr>;
         s2 = view_call (SceneAddItem node) s1
     in and_then (for_each (\<lambda>(port, connected). for_each (\<lambda>p. Port_connect_to port p) connected) inputs s2)
          (for_each (\<lambda>(port, connected). for_each (\<lambda>p. Port_connect_to port p) connected) outputs))"

definition NodeRemovedCmd_redo ::
  "node_ref \<Rightarrow> (port_ref \<times> port_ref list) list \<Rightarrow> (port_ref \<times> port_ref list) list \<Rightarrow>
   'v graph_state \<Rightarrow> py_error + 'v graph_state" where
  "NodeRemovedCmd_redo node inputs outputs s =
     and_then (for_each (\<lambda>(port, connected). for_each (\<lambda>p. Port_disconnect_from port p) connected) inputs s)
    (\<lambda>s1.
     and_then (for_each (\<lambda>(port, connected). for_each (\<lambda>p. Port_disconnect_from port p) connected) outputs s1)
    (\<lambda>s2.
     and_then (dict_pop (nodes s2) (node_ident (node_objs s2 node)))
    (\<lambda>d. Inr (view_call (ViewDelete node) (s2\<lparr>nodes := d\<rparr>)))))"

section \<open>Commands and their history\<close>

text \<open>
  A command object with what its constructor stored: the property command its node, the
  property name, the old value read by \<^verbatim>\<open>get_property\<close> and the new value; the move
  command its node, \<open>pos\<close> and \<open>prev_pos\<close>; the add command its node and \<open>pos\<close>; the
  remove command its node and the captured connections of its input and output ports; the
  port commands their source and target; the visibility command its port and the
  visibility it read.
\<close>

datatype 'v command =
    PropertyChangedCmd node_ref string 'v 'v
  | NodeMovedCmd node_ref 'v 'v
  | NodeAddedCmd node_ref "'v option"
  | NodeRemovedCmd node_ref "(port_ref \<times> port_ref list) list" "(port_ref \<times> port_ref list) list"
  | PortConnectedCmd port_ref port_ref
  | PortDisconnectedCmd port_ref port_ref
  | PortVisibleCmd port_ref bool

text \<open>\<^verbatim>\<open>PropertyChangedCmd.__init__\<close> and \<^verbatim>\<open>PortVisibleCmd.__init__\<close> read the state.\<close>

definition PropertyChangedCmd_init :: "'v graph_state \<Rightarrow> node_ref \<Rightarrow> string \<Rightarrow> 'v \<Rightarrow> 'v command" where
  "PropertyChangedCmd_init s node name v = PropertyChangedCmd node name (get_property s node name) v"

definition PortVisibleCmd_init :: "'v graph_state \<Rightarrow> port_ref \<Rightarrow> 'v command" where
  "PortVisibleCmd_init s port = PortVisibleCmd port (port_visible (port_objs s port))"

text \<open>
  \<open>cmd_redo\<close> and \<open>cmd_undo\<close> call the command's own \<^verbatim>\<open>redo\<close> and \<^verbatim>\<open>undo\<close>. Undoing
  returns the command as well: \<^verbatim>\<open>NodeAddedCmd.undo\<close> assigns its \<open>pos\<close>.
\<close>

fun cmd_redo :: "'v command \<Rightarrow> 'v graph_state \<Rightarrow> py_error + 'v graph_state" where
  "cmd_redo (PropertyChangedCmd node name old_val new_val) s = PropertyChangedCmd_redo node name old_val new_val s"
| "cmd_redo (NodeMovedCmd node pos prev_pos) s = NodeMovedCmd_redo node pos prev_pos s"
| "cmd_redo (NodeAddedCmd node pos) s = NodeAddedCmd_redo node pos s"
| "cmd_redo (NodeRemovedCmd node inputs outputs) s = NodeRemovedCmd_redo node inputs outputs s"
| "cmd_redo (PortConnectedCmd source target) s = PortConnectedCmd_redo source target s"
| "cmd_redo (PortDisconnectedCmd source target) s = PortDisconnectedCmd_redo source target s"
| "cmd_redo (PortVisibleCmd port visible) s = PortVisibleCmd_redo port visible s"

fun cmd_undo :: "'v command \<Rightarrow> 'v graph_state \<Rightarrow> py_error + ('v command \<times> 'v graph_state)" where
  "cmd_undo (PropertyChangedCmd node name old_val new_val) s =
     and_then (PropertyChangedCmd_undo node name old_val new_val s)
       (\<lambda>s'. Inr (PropertyChangedCmd node name old_val new_val, s'))"
| "cmd_undo (NodeMovedCmd node pos prev_pos) s =
     and_then (NodeMovedCmd_undo node pos prev_pos s) (\<lambda>s'. Inr (NodeMovedCmd node pos prev_pos, s'))"
| "cmd_undo (NodeAddedCmd node pos) s =
     and_then (NodeAddedCmd_undo node pos s) (\<lambda>(pos', s'). Inr (NodeAddedCmd node pos', s'))"
| "cmd_undo (NodeRemovedCmd node inputs outputs) s =
     and_then (NodeRemovedCmd_undo node inputs outputs s) (\<lambda>s'. Inr (NodeRemovedCmd node inputs outputs, s'))"
| "cmd_undo (PortConnectedCmd source target) s =
     and_then (PortConnectedCmd_undo source target s) (\<lambda>s'. Inr (PortConnectedCmd source target, s'))"
| "cmd_undo (PortDisconnectedCmd source target) s =
     and_then (PortDisconnectedCmd_undo source target s) (\<lambda>s'. Inr (PortDisconnectedCmd source target, s'))"
| "cmd_undo (PortVisibleCmd port visible) s =
     and_then (PortVisibleCmd_undo port visible s) (\<lambda>s'. Inr (PortVisibleCmd port visible, s'))"

text \<open>
  The redo transformations of a list of commands in push order (pushing a command runs
  its \<^verbatim>\<open>redo\<close> once), and their undo transformations in reverse push order.
\<close>

fun redo_all :: "'v command list \<Rightarrow> 'v graph_state \<Rightarrow> py_error + 'v graph_state" where
  "redo_all [] s = Inr s"
| "redo_all (c # cs) s = and_then (cmd_redo c s) (redo_all cs)"

fun undo_all :: "'v command list \<Rightarrow> 'v graph_state \<Rightarrow> py_error + ('v command list \<times> 'v graph_state)" where
  "undo_all [] s = Inr ([], s)"
| "undo_all (c # cs) s =
     and_then (undo_all cs s)
       (\<lambda>(cs', s1). and_then (cmd_undo c s1) (\<lambda>(c', s2). Inr (c' # cs', s2)))"

text \<open>
  The model part of the state: the node mapping, the properties of each node (its
  position among them), the connection sets and the visibility of each port.
\<close>

definition model_state ::
  "'v graph_state \<Rightarrow> (node_id \<rightharpoonup> node_ref) \<times> (node_ref \<Rightarrow> string \<Rightarrow> 'v) \<times>
     (port_ref \<Rightarrow> node_id \<rightharpoonup> string list) \<times> (port_ref \<Rightarrow> bool)" where
  "model_state s =
     (nodes s, (\<lambda>n. model_properties (node_objs s n)), (\<lambda>p. connected_ports (port_objs s p)),
      (\<lambda>p. port_visible (port_objs s p)))"

section \<open>Connection symmetry\<close>

text \<open>\<open>listed s p q\<close>: the name of \<open>q\<close> is in the connection set of \<open>p\<close> under the node id of \<open>q\<close>.\<close>

definition listed :: "'v graph_state \<Rightarrow> port_ref \<Rightarrow> port_ref \<Rightarrow> bool" where
  "listed s p q = contains (dict_get (conn s p) (port_node_id s q)) (name_of s q)"

text \<open>INV-1 as the spec states it, over the ports \<open>ps\<close> of the document.\<close>

definition INV1 :: "port_ref list \<Rightarrow> 'v graph_state \<Rightarrow> bool" where
  "INV1 ps s = (\<forall>p \<in> set ps. \<forall>q \<in> set ps. listed s p q = listed s q p)"

text \<open>Two ports of opposite direction: an input and an output.\<close>

definition opposite :: "'v graph_state \<Rightarrow> port_ref \<Rightarrow> port_ref \<Rightarrow> bool" where
  "opposite s p q = (port_type (port_objs s p) \<noteq> port_type (port_objs s q))"

text \<open>How often the name of \<open>q\<close> occurs in the connection set of \<open>p\<close> under the node id of \<open>q\<close>.\<close>

definition occurrences :: "'v graph_state \<Rightarrow> port_ref \<Rightarrow> port_ref \<Rightarrow> nat" where
  "occurrences s p q = count_list (names_at (conn s p) (port_node_id s q)) (name_of s q)"

text \<open>
  The data model's naming rule: a port is identified by its node's id, its direction and
  its name (names are unique among the ports of one direction of a node).
\<close>

definition ports_identified :: "port_ref list \<Rightarrow> 'v graph_state \<Rightarrow> bool" where
  "ports_identified ps s =
     (\<forall>p \<in> set ps. \<forall>q \<in> set ps.
        port_node_id s p = port_node_id s q \<and> name_of s p = name_of s q \<and> \<not> opposite s p q \<longrightarrow> p = q)"

text \<open>Connection symmetry between ports of opposite direction, by membership and by count.\<close>

definition INV1_opposite :: "port_ref list \<Rightarrow> 'v graph_state \<Rightarrow> bool" where
  "INV1_opposite ps s = (\<forall>p \<in> set ps. \<forall>q \<in> set ps. opposite s p q \<longrightarrow> listed s p q = listed s q p)"

definition INV1_counting :: "port_ref list \<Rightarrow> 'v graph_state \<Rightarrow> bool" where
  "INV1_counting ps s =
     (\<forall>p \<in> set ps. \<forall>q \<in> set ps. opposite s p q \<longrightarrow> occurrences s p q = occurrences s q p)"

section \<open>The port transformations in the spec's words\<close>

text \<open>
  Spec 4.5: "append target's name into source's connection set keyed by target's node
  id, append source's name into target's connection set keyed by source's node id, notify
  ViewSync to draw the link."
\<close>

definition spec_connect :: "port_ref \<Rightarrow> port_ref \<Rightarrow> 'v graph_state \<Rightarrow> 'v graph_state" where
  "spec_connect source target s =
    (let s1 = set_conn source ((conn s source)(port_node_id s target \<mapsto>
                names_at (conn s source) (port_node_id s target) @ [name_of s target])) s;
         s2 = set_conn target ((conn s1 target)(port_node_id s source \<mapsto>
                names_at (conn s1 target) (port_node_id s source) @ [name_of s source])) s1
     in view_call (PortViewConnectTo source target) s2)"

text \<open>
  Spec 4.5: "The inverse operation removes each name from the respective list (and, if a
  node's id key maps to an empty list, removes the key entirely) and notifies ViewSync to
  erase the link."
\<close>

definition spec_remove :: "('k \<rightharpoonup> 'a list) \<Rightarrow> 'k \<Rightarrow> 'a \<Rightarrow> ('k \<rightharpoonup> 'a list)" where
  "spec_remove d k x =
    (let d' = drop_name d k x in if d' k = Some [] then d'(k := None) else d')"

definition spec_disconnect :: "port_ref \<Rightarrow> port_ref \<Rightarrow> 'v graph_state \<Rightarrow> 'v graph_state" where
  "spec_disconnect source target s =
    (let s1 = set_conn source (spec_remove (conn s source) (port_node_id s target) (name_of s target)) s;
         s2 = set_conn target (spec_remove (conn s1 target) (port_node_id s source) (name_of s source)) s1
     in view_call (PortViewDisconnectFrom source target) s2)"

text \<open>
  The example document after port 0 and port 1 were connected and disconnected again:
  both keep the peer's key, with the empty list.
\<close>

definition example_emptied :: "nat graph_state" where
  "example_emptied =
     example_state\<lparr>port_objs := (port_objs example_state)
       (0 := (example_port 0 ''out'' OUT_PORT)\<lparr>connected_ports := [''n2'' \<mapsto> []]\<rparr>,
        1 := (example_port 1 ''in'' IN_PORT)\<lparr>connected_ports := [''n1'' \<mapsto> []]\<rparr>)\<rparr>"

text \<open>Two ports that a connection set cannot tell apart: same node id, same name.\<close>

definition peer_like :: "'v graph_state \<Rightarrow> port_ref \<Rightarrow> port_ref \<Rightarrow> bool" where
  "peer_like s q r = (port_node_id s q = port_node_id s r \<and> name_of s q = name_of s r)"

text \<open>The example document after \<^verbatim>\<open>PortConnectedCmd(port 0, port 1).redo()\<close>.\<close>

definition example_linked :: "nat graph_state" where
  "example_linked = example_connected\<lparr>view_calls := [PortViewConnectTo 0 1]\<rparr>"

section \<open>Topological sort\<close>

text \<open>
  The classes of nodes and ports are not among the sources; the sort reads them through
  six accessors, taken here as parameters: \<^verbatim>\<open>node.input_ports()\<close>, \<^verbatim>\<open>node.output_ports()\<close>,
  \<^verbatim>\<open>port.connected_ports()\<close>, \<^verbatim>\<open>port.node()\<close>, \<^verbatim>\<open>node.id\<close> and
  \<^verbatim>\<open>port.view.connected_pipes\<close>. Nodes are compared, and used as dictionary keys, by
  identity: \<open>'n\<close> is the type of node references.
\<close>

record ('n, 'p) node_graph =
  input_ports :: "'n \<Rightarrow> 'p list"
  output_ports :: "'n \<Rightarrow> 'p list"
  port_connected_ports :: "'p \<Rightarrow> 'p list"
  port_owner :: "'p \<Rightarrow> 'n"
  node_obj_id :: "'n \<Rightarrow> node_id"
  connected_pipes :: "'p \<Rightarrow> nat list"

text \<open>
  A dictionary whose order of keys matters, as an association list with unique keys:
  \<^verbatim>\<open>d[k] = v\<close> replaces the value of a key in place or appends a new key, \<^verbatim>\<open>d[k]\<close> raises
  KeyError on an absent key.
\<close>

fun dict_setitem :: "('k \<times> 'a) list \<Rightarrow> 'k \<Rightarrow> 'a \<Rightarrow> ('k \<times> 'a) list" where
  "dict_setitem [] k v = [(k, v)]"
| "dict_setitem ((k', v') # d) k v = (if k' = k then (k, v) # d else (k', v') # dict_setitem d k v)"

definition dict_getitem :: "('k \<times> 'a) list \<Rightarrow> 'k \<Rightarrow> py_error + 'a" where
  "dict_getitem d k = (case map_of d k of None \<Rightarrow> Inl KeyError | Some v \<Rightarrow> Inr v)"

text \<open>\<^verbatim>\<open>get_input_nodes\<close> and \<^verbatim>\<open>get_output_nodes\<close>: the peers' nodes, one per node id.\<close>

definition get_input_nodes :: "('n, 'p) node_graph \<Rightarrow> 'n \<Rightarrow> 'n list" where
  "get_input_nodes g node =
     map snd (foldl (\<lambda>nodes p.
                foldl (\<lambda>nodes cp. let n = port_owner g cp in dict_setitem nodes (node_obj_id g n) n)
                  nodes (port_connected_ports g p))
              [] (input_ports g node))"

definition get_output_nodes :: "('n, 'p) node_graph \<Rightarrow> 'n \<Rightarrow> 'n list" where
  "get_output_nodes g node =
     map snd (foldl (\<lambda>nodes p.
                foldl (\<lambda>nodes cp. let n = port_owner g cp in dict_setitem nodes (node_obj_id g n) n)
                  nodes (port_connected_ports g p))
              [] (output_ports g node))"

text \<open>\<^verbatim>\<open>_has_input_node\<close> and \<^verbatim>\<open>_has_output_node\<close>: some port has a pipe in its view.\<close>

definition has_input_node :: "('n, 'p) node_graph \<Rightarrow> 'n \<Rightarrow> bool" where
  "has_input_node g node = list_ex (\<lambda>p. connected_pipes g p \<noteq> []) (input_ports g node)"

definition has_output_node :: "('n, 'p) node_graph \<Rightarrow> 'n \<Rightarrow> bool" where
  "has_output_node g node = list_ex (\<lambda>p. connected_pipes g p \<noteq> []) (output_ports g node)"

text \<open>
  \<^verbatim>\<open>_build_graph\<close>. \<open>build_graph_for\<close> is the inner \<^verbatim>\<open>for n in output_nodes\<close> with the
  dictionary and the list \<^verbatim>\<open>_output_nodes\<close> it fills; \<open>build_graph_while\<close> is the
  \<^verbatim>\<open>while output_nodes\<close> loop, which need not end when the accessors describe an infinite
  graph (its value is then None); \<open>build_graph_from\<close> is the outer loop over the start
  nodes.
\<close>

fun build_graph_for :: "('n, 'p) node_graph \<Rightarrow> 'n list \<Rightarrow> ('n \<times> 'n list) list \<times> 'n list \<Rightarrow> ('n \<times> 'n list) list \<times> 'n list" where
  "build_graph_for g [] (graph, output_nodes') = (graph, output_nodes')"
| "build_graph_for g (n # ns) (graph, output_nodes') =
     (if n \<notin> fst ` set graph
      then (let nodes = get_output_nodes g n
            in build_graph_for g ns (dict_setitem graph n nodes, output_nodes' @ nodes))
      else build_graph_for g ns (graph, output_nodes'))"

partial_function (option) build_graph_while ::
  "('n, 'p) node_graph \<Rightarrow> ('n \<times> 'n list) list \<Rightarrow> 'n list \<Rightarrow> ('n \<times> 'n list) list option" where
  "build_graph_while g graph output_nodes =
     (if output_nodes = [] then Some graph
      else build_graph_while g (fst (build_graph_for g output_nodes (graph, [])))
             (snd (build_graph_for g output_nodes (graph, []))))"

declare build_graph_while.simps [code]

fun build_graph_from :: "('n, 'p) node_graph \<Rightarrow> 'n list \<Rightarrow> ('n \<times> 'n list) list \<Rightarrow> ('n \<times> 'n list) list option" where
  "build_graph_from g [] graph = Some graph"
| "build_graph_from g (node # rest) graph =
     (let output_nodes = get_output_nodes g node in
      case build_graph_while g (dict_setitem graph node output_nodes) output_nodes of
        None \<Rightarrow> None
      | Some graph' \<Rightarrow> build_graph_from g rest graph')"

definition build_graph :: "('n, 'p) node_graph \<Rightarrow> 'n list \<Rightarrow> ('n \<times> 'n list) list option" where
  "build_graph g start_nodes = build_graph_from g start_nodes []"

text \<open>
  The depth-first traversal of \<^verbatim>\<open>topological_sort\<close>. The closure \<^verbatim>\<open>dfs\<close> writes the
  dictionary \<^verbatim>\<open>visit\<close> and the list \<^verbatim>\<open>sorted_nodes\<close> of the enclosing call; they are passed
  and returned. \<open>dfs_for\<close> is its loop over \<^verbatim>\<open>graph[start_node]\<close>. The number of nodes not
  yet marked in \<^verbatim>\<open>visit\<close> never grows, and falls before each recursive call.
\<close>

definition unvisited :: "('n \<times> bool) list \<Rightarrow> nat" where
  "unvisited visit = length (filter (\<lambda>e. \<not> snd e) visit)"

function dfs :: "('n \<times> 'n list) list \<Rightarrow> 'n \<Rightarrow> ('n \<times> bool) list \<times> 'n list \<Rightarrow> py_error + (('n \<times> bool) list \<times> 'n list)"
  and dfs_for :: "('n \<times> 'n list) list \<Rightarrow> 'n list \<Rightarrow> ('n \<times> bool) list \<times> 'n list \<Rightarrow> py_error + (('n \<times> bool) list \<times> 'n list)"
where
  "dfs graph start_node st =
     (case dict_getitem graph start_node of
        Inl e \<Rightarrow> Inl e
      | Inr end_nodes \<Rightarrow>
          (case dfs_for graph end_nodes st of
             Inl e \<Rightarrow> Inl e
           | Inr (visit, sorted_nodes) \<Rightarrow> Inr (visit, sorted_nodes @ [start_node])))"
| "dfs_for graph [] st = Inr st"
| "dfs_for graph (end_node # rest) (visit, sorted_nodes) =
     (case dict_getitem visit end_node of
        Inl e \<Rightarrow> Inl e
      | Inr seen \<Rightarrow>
          if \<not> seen
          then (case dfs graph end_node (dict_setitem visit end_node True, sorted_nodes) of
                  Inl e \<Rightarrow> Inl e
                | Inr st' \<Rightarrow> dfs_for graph rest st')
          else dfs_for graph rest (visit, sorted_nodes))"
  by pat_completeness auto

lemma unvisited_setitem_le: "unvisited (dict_setitem visit k True) \<le> unvisited visit"
  by (induction visit) (auto simp: unvisited_def)

lemma unvisited_setitem_less:
  "map_of visit k = Some False \<Longrightarrow> unvisited (dict_setitem visit k True) < unvisited visit"
  by (induction visit) (auto simp: unvisited_def less_Suc_eq_le)

lemma dfs_unvisited_le:
  "dfs_dfs_for_dom (Inl (graph, n, st)) \<Longrightarrow> dfs graph n st = Inr st' \<Longrightarrow>
     unvisited (fst st') \<le> unvisited (fst st)"
  "dfs_dfs_for_dom (Inr (graph, ns, st)) \<Longrightarrow> dfs_for graph ns st = Inr st' \<Longrightarrow>
     unvisited (fst st') \<le> unvisited (fst st)"
proof (induction graph n st and graph ns st arbitrary: st' and st' rule: dfs_dfs_for.pinduct)
  case (1 graph start_node st)
  then show ?case
    by (auto simp: dfs.psimps split: sum.splits prod.splits)
next
  case (2 graph st)
  then show ?case by (simp add: dfs_for.psimps)
next
  case (3 graph end_node rest visit sorted_nodes)
  note dom = "3.hyps" and res = "3.prems" and IH = "3.IH"
  show ?case
  proof (cases "dict_getitem visit end_node")
    case (Inl e)
    then show ?thesis using dom res by (simp add: dfs_for.psimps)
  next
    case (Inr seen)
    show ?thesis
    proof (cases seen)
      case True
      then show ?thesis using dom res IH(3) Inr by (simp add: dfs_for.psimps)
    next
      case False
      then obtain st1 where st1: "dfs graph end_node (dict_setitem visit end_node True, sorted_nodes) = Inr st1"
          "dfs_for graph rest st1 = Inr st'"
        using dom res Inr by (auto simp: dfs_for.psimps split: sum.splits)
      have "unvisited (fst st1) \<le> unvisited (dict_setitem visit end_node True)"
        using IH(1) [OF Inr _ st1(1)] False by simp
      moreover have "unvisited (fst st') \<le> unvisited (fst st1)"
        using IH(2) [OF Inr _ st1(1) st1(2)] False by simp
      ultimately show ?thesis
        using unvisited_setitem_le [of visit end_node] by simp
    qed
  qed
qed


lemma dict_getitem_Inr: "dict_getitem d k = Inr v \<longleftrightarrow> map_of d k = Some v"
  by (simp add: dict_getitem_def split: option.splits)

termination dfs
proof (relation "inv_image (less_than <*lex*> less_than)
    (\<lambda>x. case x of
        Inl (graph, n, st) \<Rightarrow>
          (unvisited (fst st), Suc (case dict_getitem graph n of Inr ns \<Rightarrow> length ns | Inl e \<Rightarrow> 0))
      | Inr (graph, ns, st) \<Rightarrow> (unvisited (fst st), length ns))", goal_cases)
  case 1
  show ?case by (intro wf_inv_image wf_lex_prod wf_less_than)
next
  case (2 graph start_node st end_nodes)
  then show ?case by simp
next
  case (3 graph end_node rest visit sorted_nodes seen)
  then show ?case
    by (simp add: dict_getitem_Inr unvisited_setitem_less)
next
  case (4 graph end_node rest visit sorted_nodes seen st1)
  have "unvisited (fst st1) \<le> unvisited (dict_setitem visit end_node True)"
    using dfs_unvisited_le(1) [OF 4(4) 4(3)] by simp
  then have "unvisited (fst st1) \<le> unvisited visit"
    using unvisited_setitem_le [of visit end_node] by simp
  then show ?case by auto
next
  case (5 graph end_node rest visit sorted_nodes seen)
  then show ?case by simp
qed

text \<open>The last loop of \<^verbatim>\<open>topological_sort\<close>, over the start nodes.\<close>

fun dfs_from :: "('n \<times> 'n list) list \<Rightarrow> 'n list \<Rightarrow> ('n \<times> bool) list \<times> 'n list \<Rightarrow> py_error + (('n \<times> bool) list \<times> 'n list)" where
  "dfs_from graph [] st = Inr st"
| "dfs_from graph (start_node # rest) (visit, sorted_nodes) =
     (case dict_getitem visit start_node of
        Inl e \<Rightarrow> Inl e
      | Inr seen \<Rightarrow>
          if \<not> seen
          then (case dfs graph start_node (dict_setitem visit start_node True, sorted_nodes) of
                  Inl e \<Rightarrow> Inl e
                | Inr st' \<Rightarrow> dfs_from graph rest st')
          else dfs_from graph rest (visit, sorted_nodes))"

text \<open>
  \<^verbatim>\<open>topological_sort\<close>. The result is None when building the graph does not end,
  otherwise the exception raised or the list returned.
\<close>

definition topological_sort :: "('n, 'p) node_graph \<Rightarrow> 'n list \<Rightarrow> 'n list \<Rightarrow> (py_error + 'n list) option" where
  "topological_sort g start_nodes all_nodes =
    (let start_nodes = (if start_nodes = [] then filter (\<lambda>n. \<not> has_input_node g n) all_nodes
                        else start_nodes)
     in if start_nodes = [] then Some (Inr [])
        else if filter (has_output_node g) start_nodes = [] then Some (Inr start_nodes)
        else (case build_graph g start_nodes of
                None \<Rightarrow> None
              | Some graph \<Rightarrow>
                  if graph = [] then Some (Inr [])
                  else (let visit = map (\<lambda>(node, nodes). (node, False)) graph
                        in case dfs_from graph start_nodes (visit, []) of
                             Inl e \<Rightarrow> Some (Inl e)
                           | Inr (visit', sorted_nodes) \<Rightarrow> Some (Inr (rev sorted_nodes)))))"

subsection \<open>Edges, reachability and order\<close>

text \<open>The edges the sort follows: from a node to each of its output nodes.\<close>

definition edges :: "('n, 'p) node_graph \<Rightarrow> ('n \<times> 'n) set" where
  "edges g = {(u, v). v \<in> set (get_output_nodes g u)}"

text \<open>The nodes reachable from the start nodes.\<close>

definition reachable :: "('n, 'p) node_graph \<Rightarrow> 'n list \<Rightarrow> 'n set" where
  "reachable g start_nodes = (edges g)\<^sup>* `` set start_nodes"

text \<open>The index of the first occurrence of an element, and "u comes before v in r".\<close>

fun position :: "'a list \<Rightarrow> 'a \<Rightarrow> nat" where
  "position [] x = 0"
| "position (y # ys) x = (if y = x then 0 else Suc (position ys x))"

definition precedes :: "'a list \<Rightarrow> 'a \<Rightarrow> 'a \<Rightarrow> bool" where
  "precedes r u v = (u \<in> set r \<and> v \<in> set r \<and> position r u < position r v)"

subsection \<open>Example graphs\<close>

text \<open>
  Nodes are numbers; each node has one input port and one output port. In the diamond,
  A = 0, B = 1, C = 2, D = 3 with edges A to B, A to C, B to D and C to D; in the cycle, 0 and 1
  feed each other. A port has as many pipes in its view as it has connected ports.
\<close>

datatype example_port_ref = In_port nat | Out_port nat

definition example_graph :: "(example_port_ref \<Rightarrow> example_port_ref list) \<Rightarrow> (nat, example_port_ref) node_graph" where
  "example_graph links =
     \<lparr>input_ports = (\<lambda>n. [In_port n]), output_ports = (\<lambda>n. [Out_port n]),
      port_connected_ports = links,
      port_owner = (\<lambda>p. case p of In_port n \<Rightarrow> n | Out_port n \<Rightarrow> n),
      node_obj_id = (\<lambda>n. replicate n (CHR ''x'')),
      connected_pipes = (\<lambda>p. map (\<lambda>q. 0) (links p))\<rparr>"

fun diamond_links :: "example_port_ref \<Rightarrow> example_port_ref list" where
  "diamond_links (Out_port n) =
     (if n = 0 then [In_port 1, In_port 2] else if n = 1 then [In_port 3]
      else if n = 2 then [In_port 3] else [])"
| "diamond_links (In_port n) =
     (if n = 1 then [Out_port 0] else if n = 2 then [Out_port 0]
      else if n = 3 then [Out_port 1, Out_port 2] else [])"

definition diamond :: "(nat, example_port_ref) node_graph" where
  "diamond = example_graph diamond_links"

fun cycle_links :: "example_port_ref \<Rightarrow> example_port_ref list" where
  "cycle_links (Out_port n) = (if n = 0 then [In_port 1] else if n = 1 then [In_port 0] else [])"
| "cycle_links (In_port n) = (if n = 0 then [Out_port 1] else if n = 1 then [Out_port 0] else [])"

definition two_cycle :: "(nat, example_port_ref) node_graph" where
  "two_cycle = example_graph cycle_links"

fun no_links :: "example_port_ref \<Rightarrow> example_port_ref list" where
  "no_links p = []"

definition isolated :: "(nat, example_port_ref) node_graph" where
  "isolated = example_graph no_links"

subsection \<open>Invariants of the graph being built\<close>

text \<open>The keys of a dictionary.\<close>

definition keys :: "('k \<times> 'a) list \<Rightarrow> 'k set" where
  "keys d = fst ` set d"

text \<open>
  The dictionary built by \<^verbatim>\<open>_build_graph\<close> maps each of its keys to the output nodes of the
  key.
\<close>

definition adjacency :: "('n, 'p) node_graph \<Rightarrow> ('n \<times> 'n list) list \<Rightarrow> bool" where
  "adjacency g graph \<longleftrightarrow>
     distinct (map fst graph) \<and> (\<forall>n ns. map_of graph n = Some ns \<longrightarrow> ns = get_output_nodes g n)"

text \<open>
  The output nodes of every key are keys themselves or among the nodes \<open>X\<close> still to be
  looked at.
\<close>

definition pending :: "('n, 'p) node_graph \<Rightarrow> ('n \<times> 'n list) list \<Rightarrow> 'n set \<Rightarrow> bool" where
  "pending g graph X \<longleftrightarrow>
     (\<forall>n \<in> keys graph. set (get_output_nodes g n) \<subseteq> keys graph \<union> X)"

subsection \<open>Invariants of the traversal\<close>

declare dfs.simps [simp del]

text \<open>
  The nodes marked in \<^verbatim>\<open>visit\<close>.
\<close>

definition visited :: "('n \<times> bool) list \<Rightarrow> 'n set" where
  "visited visit = {n. map_of visit n = Some True}"

text \<open>
  The edges recorded in the built dictionary.
\<close>

definition graph_edges :: "('n \<times> 'n list) list \<Rightarrow> ('n \<times> 'n) set" where
  "graph_edges graph = {(u, v). \<exists>ns. map_of graph u = Some ns \<and> v \<in> set ns}"

text \<open>
  Every node listed in the dictionary is one of its keys.
\<close>

definition closed_graph :: "('n \<times> 'n list) list \<Rightarrow> bool" where
  "closed_graph graph \<longleftrightarrow> (\<forall>n ns. map_of graph n = Some ns \<longrightarrow> set ns \<subseteq> keys graph)"

text \<open>
  \<open>x\<close> stands in an earlier part of the list than \<open>w\<close>.
\<close>

definition before :: "'a list \<Rightarrow> 'a \<Rightarrow> 'a \<Rightarrow> bool" where
  "before xs x w \<longleftrightarrow> (\<exists>as bs. xs = as @ bs \<and> x \<in> set as \<and> w \<in> set bs)"

text \<open>
  The nodes discovered and not yet appended to \<^verbatim>\<open>sorted_nodes\<close>: those whose call of
  \<^verbatim>\<open>dfs\<close> is still running.
\<close>

definition gray :: "('n \<times> bool) list \<Rightarrow> 'n list \<Rightarrow> 'n set" where
  "gray visit sorted_nodes = visited visit - set sorted_nodes"

text \<open>
  The invariant of the traversal: \<^verbatim>\<open>visit\<close> has the keys of the graph, the appended nodes are
  marked and distinct, and every successor of an appended node was appended before it.
\<close>

definition dfs_inv :: "('n \<times> 'n list) list \<Rightarrow> ('n \<times> bool) list \<Rightarrow> 'n list \<Rightarrow> bool" where
  "dfs_inv graph visit sorted_nodes \<longleftrightarrow>
     keys visit = keys graph \<and> set sorted_nodes \<subseteq> visited visit \<and> distinct sorted_nodes \<and>
     (\<forall>w \<in> set sorted_nodes. \<forall>x. (w, x) \<in> graph_edges graph \<longrightarrow> before sorted_nodes x w)"

text \<open>
  A closed dictionary without a cycle.
\<close>

definition sound_graph :: "('n \<times> 'n list) list \<Rightarrow> bool" where
  "sound_graph graph \<longleftrightarrow> closed_graph graph \<and> (\<forall>w. (w, w) \<notin> (graph_edges graph)\<^sup>+)"

text \<open>
  The start nodes \<^verbatim>\<open>topological_sort\<close> works from: those given, or the candidates without a
  pipe on an input port.
\<close>

definition start_set :: "('n, 'p) node_graph \<Rightarrow> 'n list \<Rightarrow> 'n list \<Rightarrow> 'n list" where
  "start_set g start_nodes all_nodes =
     (if start_nodes = [] then filter (\<lambda>n. \<not> has_input_node g n) all_nodes else start_nodes)"

section \<open>Verification: the port commands\<close>

subsection \<open>Basic facts\<close>

lemma and_then_Inr [simp]: "and_then (Inr x) f = f x"
  by (simp add: and_then_def)

lemma and_then_Inl [simp]: "and_then (Inl e) f = Inl e"
  by (simp add: and_then_def)

lemma port_node_id_set_conn [simp]: "port_node_id (set_conn p d s) q = port_node_id s q"
  by (simp add: port_node_id_def set_conn_def)

lemma name_of_set_conn [simp]: "name_of (set_conn p d s) q = name_of s q"
  by (simp add: name_of_def set_conn_def)

lemma conn_set_conn [simp]: "conn (set_conn p d s) q = (if q = p then d else conn s q)"
  by (simp add: conn_def set_conn_def)

lemma port_node_id_view_call [simp]: "port_node_id (view_call c s) q = port_node_id s q"
  by (simp add: port_node_id_def view_call_def)

lemma name_of_view_call [simp]: "name_of (view_call c s) q = name_of s q"
  by (simp add: name_of_def view_call_def)

lemma conn_view_call [simp]: "conn (view_call c s) q = conn s q"
  by (simp add: conn_def view_call_def)

lemma set_conn_same [simp]: "set_conn p (conn s p) s = s"
  by (simp add: set_conn_def conn_def)

lemma getitem_append_eq: "getitem_append d k x = d(k \<mapsto> names_at d k @ [x])"
  by (simp add: getitem_append_def defaultdict_getitem_def names_at_def split: option.splits)

text \<open>
  The guarded removal of the source, as one step: it takes the first occurrence of the
  name out of the list under the key, and does nothing when there is none.
\<close>

lemma remove_block_eq:
  "and_then (if truthy (dict_get (conn s p) k) \<and> contains (dict_get (conn s p) k) x
               then and_then (remove_from (dict_get (conn s p) k) x)
                      (\<lambda>xs. Inr (set_conn p (list_mutated (conn s p) k xs) s))
               else Inr s) f
   = f (set_conn p (drop_name (conn s p) k x) s)"
  by (auto simp: truthy_def contains_def dict_get_def remove_from_def list_remove_def and_then_def
       list_mutated_def drop_name_def remove1_idem map_upd_triv split: option.splits)

lemma PortConnectedCmd_undo_eq:
  "PortConnectedCmd_undo source target s =
     Inr (view_call (PortViewDisconnectFrom source target) (disconnected source target s))"
  unfolding PortConnectedCmd_undo_def Let_def is_new_empty_list_def if_False and_then_Inr disconnected_def
  apply (subst remove_block_eq)
  apply (subst remove_block_eq)
  apply simp
  done

lemma PortDisconnectedCmd_redo_eq:
  "PortDisconnectedCmd_redo source target s =
     Inr (view_call (PortViewDisconnectFrom source target) (disconnected source target s))"
  unfolding PortDisconnectedCmd_redo_def Let_def is_new_empty_list_def if_False and_then_Inr disconnected_def
  apply (subst remove_block_eq)
  apply (subst remove_block_eq)
  apply simp
  done

lemma PortConnectedCmd_redo_eq:
  "PortConnectedCmd_redo source target s =
     Inr (view_call (PortViewConnectTo source target) (connected source target s))"
  by (simp add: PortConnectedCmd_redo_def connected_def Let_def)

lemma PortDisconnectedCmd_undo_eq:
  "PortDisconnectedCmd_undo source target s =
     Inr (view_call (PortViewConnectTo source target) (connected source target s))"
  by (simp add: PortDisconnectedCmd_undo_def connected_def Let_def)

lemma dom_drop_name [simp]: "dom (drop_name d k x) = dom d"
  by (auto simp: drop_name_def split: option.splits)

lemma drop_name_absent: "\<not> contains (dict_get d k) x \<Longrightarrow> drop_name d k x = d"
  by (auto simp: drop_name_def contains_def dict_get_def remove1_idem map_upd_triv split: option.splits)

lemma names_at_drop_name:
  "names_at (drop_name d k x) k' = (if k' = k then remove1 x (names_at d k) else names_at d k')"
  by (auto simp: names_at_def drop_name_def split: option.splits)

lemma names_at_getitem_append:
  "names_at (getitem_append d k x) k' = (if k' = k then names_at d k @ [x] else names_at d k')"
  by (auto simp: names_at_def getitem_append_eq split: option.splits)

lemma conn_disconnected:
  "conn (disconnected source target s) p =
     (if p = target then
        drop_name (if target = source then drop_name (conn s source) (port_node_id s target) (name_of s target)
                   else conn s target) (port_node_id s source) (name_of s source)
      else if p = source then drop_name (conn s source) (port_node_id s target) (name_of s target)
      else conn s p)"
  by (simp add: disconnected_def Let_def)

lemma conn_connected:
  "conn (connected source target s) p =
     (if p = target then
        getitem_append (if target = source then getitem_append (conn s source) (port_node_id s target) (name_of s target)
                   else conn s target) (port_node_id s source) (name_of s source)
      else if p = source then getitem_append (conn s source) (port_node_id s target) (name_of s target)
      else conn s p)"
  by (simp add: connected_def Let_def)

lemma port_node_id_disconnected [simp]: "port_node_id (disconnected a b s) q = port_node_id s q"
  by (simp add: disconnected_def Let_def)

lemma name_of_disconnected [simp]: "name_of (disconnected a b s) q = name_of s q"
  by (simp add: disconnected_def Let_def)

lemma port_node_id_connected [simp]: "port_node_id (connected a b s) q = port_node_id s q"
  by (simp add: connected_def Let_def)

lemma name_of_connected [simp]: "name_of (connected a b s) q = name_of s q"
  by (simp add: connected_def Let_def)

lemmas example_defs = example_state_def example_connected_def example_node_def example_port_def
  conn_def port_node_id_def name_of_def

lemma example_connected_facts:
  "conn example_connected 0 (port_node_id example_connected 1) = Some [name_of example_connected 1]"
  "port_node_id example_connected 1 = ''n2''"
  "dom (conn example_connected 0) = {''n2''}"
  by (simp_all add: example_defs)

subsection \<open>The key of an emptied list stays\<close>

text \<open>
  Claim C3. In \<^verbatim>\<open>PortConnectedCmd.undo\<close> and \<^verbatim>\<open>PortDisconnectedCmd.redo\<close> the test
  \<^verbatim>\<open>port_names is []\<close> is false for every value of \<^verbatim>\<open>port_names\<close>, so the branch that
  deletes the key is never taken: after either transformation every port has exactly the
  keys it had before, and a key whose list held only the peer's name is still there, now
  with the empty list.
\<close>

theorem empty_key_is_never_removed:
  "\<not> is_new_empty_list r \<and>
   (\<exists>s'. PortConnectedCmd_undo source target s = Inr s' \<and>
         (\<forall>p. dom (conn s' p) = dom (conn s p)) \<and>
         (conn s source (port_node_id s target) = Some [name_of s target] \<longrightarrow>
            conn s' source (port_node_id s target) = Some [])) \<and>
   (\<exists>s'. PortDisconnectedCmd_redo source target s = Inr s' \<and>
         (\<forall>p. dom (conn s' p) = dom (conn s p)) \<and>
         (conn s source (port_node_id s target) = Some [name_of s target] \<longrightarrow>
            conn s' source (port_node_id s target) = Some []))"
proof -
  let ?s' = "disconnected source target s"
  have doms: "\<forall>p. dom (conn ?s' p) = dom (conn s p)"
    by (simp add: conn_disconnected)
  have emptied: "conn ?s' source (port_node_id s target) = Some []"
    if "conn s source (port_node_id s target) = Some [name_of s target]"
    using that by (auto simp: conn_disconnected drop_name_def)
  show ?thesis
    using doms emptied
    by (simp add: is_new_empty_list_def PortConnectedCmd_undo_eq PortDisconnectedCmd_redo_eq)
qed

theorem empty_key_is_never_removed_witness:
  "conn example_connected 0 (port_node_id example_connected 1) = Some [name_of example_connected 1] \<and>
   (\<exists>s'. PortConnectedCmd_undo 0 1 example_connected = Inr s' \<and>
         conn s' 0 ''n2'' = Some [] \<and> dom (conn s' 0) = {''n2''})"
proof -
  note h = example_connected_facts(1) and k = example_connected_facts(2,3)
  obtain s' where s': "PortConnectedCmd_undo 0 1 example_connected = Inr s'"
     "\<forall>p. dom (conn s' p) = dom (conn example_connected p)"
     "conn example_connected 0 (port_node_id example_connected 1) = Some [name_of example_connected 1] \<longrightarrow>
            conn s' 0 (port_node_id example_connected 1) = Some []"
    using empty_key_is_never_removed [of None 0 1 example_connected] by blast
  have "conn s' 0 ''n2'' = Some []" using s'(3) h k(1) by simp
  moreover have "dom (conn s' 0) = {''n2''}" using s'(2) k(2) by simp
  ultimately show ?thesis using h s'(1) by blast
qed

subsection \<open>Disconnecting what is not connected\<close>

text \<open>
  Claim C6. \<^verbatim>\<open>PortDisconnectedCmd.redo\<close> and \<^verbatim>\<open>PortConnectedCmd.undo\<close> return normally in
  every state. Where the peer's name is not in an endpoint's list under the peer's node
  id (the key may be absent altogether), that endpoint's connection mapping is left as
  it was.
\<close>

theorem teardown_never_raises:
  "\<exists>s'. PortDisconnectedCmd_redo source target s = Inr s' \<and>
        PortConnectedCmd_undo source target s = Inr s' \<and>
        (\<not> contains (dict_get (conn s source) (port_node_id s target)) (name_of s target) \<longrightarrow>
           conn s' source = conn s source) \<and>
        (\<not> contains (dict_get (conn s target) (port_node_id s source)) (name_of s source) \<longrightarrow>
           conn s' target = conn s target)"
proof -
  let ?s' = "disconnected source target s"
  have a: "conn ?s' source = conn s source"
    if "\<not> contains (dict_get (conn s source) (port_node_id s target)) (name_of s target)"
    using that by (cases "source = target") (simp_all add: conn_disconnected drop_name_absent)
  have b: "conn ?s' target = conn s target"
    if "\<not> contains (dict_get (conn s target) (port_node_id s source)) (name_of s source)"
    using that by (cases "source = target") (simp_all add: conn_disconnected drop_name_absent)
  show ?thesis
    using a b by (simp add: PortConnectedCmd_undo_eq PortDisconnectedCmd_redo_eq)
qed

theorem teardown_never_raises_witness:
  "\<not> contains (dict_get (conn example_state 0) (port_node_id example_state 1)) (name_of example_state 1) \<and>
   \<not> contains (dict_get (conn example_state 1) (port_node_id example_state 0)) (name_of example_state 0) \<and>
   (\<exists>s'. PortDisconnectedCmd_redo 0 1 example_state = Inr s' \<and>
         PortConnectedCmd_undo 0 1 example_state = Inr s' \<and>
         conn s' 0 = Map.empty \<and> conn s' 1 = Map.empty)"
proof -
  have h1: "\<not> contains (dict_get (conn example_state 0) (port_node_id example_state 1)) (name_of example_state 1)"
    by (simp add: example_defs contains_def dict_get_def)
  have h2: "\<not> contains (dict_get (conn example_state 1) (port_node_id example_state 0)) (name_of example_state 0)"
    by (simp add: example_defs contains_def dict_get_def)
  have k: "conn example_state 0 = Map.empty" "conn example_state 1 = Map.empty"
    by (simp_all add: example_defs)
  obtain s' where s': "PortDisconnectedCmd_redo 0 1 example_state = Inr s'"
      "PortConnectedCmd_undo 0 1 example_state = Inr s'"
      "conn s' 0 = conn example_state 0" "conn s' 1 = conn example_state 1"
    using teardown_never_raises [of 0 1 example_state] h1 h2 by blast
  show ?thesis using h1 h2 s' k by auto
qed

subsection \<open>Connecting twice\<close>

lemma repeat_redo:
  assumes "source \<noteq> target"
  shows "\<exists>s'. repeat_cmd n (PortConnectedCmd_redo source target) s = Inr s' \<and>
     (\<forall>q. port_node_id s' q = port_node_id s q) \<and> (\<forall>q. name_of s' q = name_of s q) \<and>
     names_at (conn s' source) (port_node_id s target) =
       names_at (conn s source) (port_node_id s target) @ replicate n (name_of s target) \<and>
     names_at (conn s' target) (port_node_id s source) =
       names_at (conn s target) (port_node_id s source) @ replicate n (name_of s source)"
proof (induction n arbitrary: s)
  case 0
  show ?case by simp
next
  case (Suc n)
  let ?s1 = "view_call (PortViewConnectTo source target) (connected source target s)"
  obtain s' where s': "repeat_cmd n (PortConnectedCmd_redo source target) ?s1 = Inr s'"
     "\<forall>q. port_node_id s' q = port_node_id ?s1 q" "\<forall>q. name_of s' q = name_of ?s1 q"
     "names_at (conn s' source) (port_node_id ?s1 target) =
       names_at (conn ?s1 source) (port_node_id ?s1 target) @ replicate n (name_of ?s1 target)"
     "names_at (conn s' target) (port_node_id ?s1 source) =
       names_at (conn ?s1 target) (port_node_id ?s1 source) @ replicate n (name_of ?s1 source)"
    using Suc.IH [of ?s1] by blast
  have "repeat_cmd (Suc n) (PortConnectedCmd_redo source target) s = Inr s'"
    using s'(1) by (simp add: PortConnectedCmd_redo_eq)
  moreover have "names_at (conn s' source) (port_node_id s target) =
       names_at (conn s source) (port_node_id s target) @ replicate (Suc n) (name_of s target)"
    using s'(4) assms by (simp add: conn_connected names_at_getitem_append replicate_app_Cons_same)
  moreover have "names_at (conn s' target) (port_node_id s source) =
       names_at (conn s target) (port_node_id s source) @ replicate (Suc n) (name_of s source)"
    using s'(5) assms by (simp add: conn_connected names_at_getitem_append replicate_app_Cons_same)
  ultimately show ?case using s'(2,3) by simp
qed

lemma count_list_remove1_append2:
  "count_list (remove1 x (xs @ [x, x])) x = count_list xs x + 1"
  by (induction xs) auto

text \<open>
  Claim C10. For two distinct port objects, \<open>n\<close> executions of \<^verbatim>\<open>PortConnectedCmd.redo\<close>
  append the peer's name \<open>n\<close> times to each endpoint's list; one \<^verbatim>\<open>PortConnectedCmd.undo\<close>
  removes the first occurrence on each side and no more; so after two redos and one undo
  each endpoint lists the peer once more than before the redos.
\<close>

theorem connecting_is_not_idempotent:
  assumes "source \<noteq> target"
  shows "(\<exists>s'. repeat_cmd n (PortConnectedCmd_redo source target) s = Inr s' \<and>
           names_at (conn s' source) (port_node_id s target) =
             names_at (conn s source) (port_node_id s target) @ replicate n (name_of s target) \<and>
           names_at (conn s' target) (port_node_id s source) =
             names_at (conn s target) (port_node_id s source) @ replicate n (name_of s source)) \<and>
         (\<exists>s'. PortConnectedCmd_undo source target s = Inr s' \<and>
           names_at (conn s' source) (port_node_id s target) =
             remove1 (name_of s target) (names_at (conn s source) (port_node_id s target)) \<and>
           names_at (conn s' target) (port_node_id s source) =
             remove1 (name_of s source) (names_at (conn s target) (port_node_id s source))) \<and>
         (\<exists>s'. and_then (repeat_cmd 2 (PortConnectedCmd_redo source target) s)
                  (PortConnectedCmd_undo source target) = Inr s' \<and>
           count_list (names_at (conn s' source) (port_node_id s target)) (name_of s target) =
             count_list (names_at (conn s source) (port_node_id s target)) (name_of s target) + 1 \<and>
           count_list (names_at (conn s' target) (port_node_id s source)) (name_of s source) =
             count_list (names_at (conn s target) (port_node_id s source)) (name_of s source) + 1)"
proof -
  have one: "\<exists>s'. repeat_cmd n (PortConnectedCmd_redo source target) s = Inr s' \<and>
           names_at (conn s' source) (port_node_id s target) =
             names_at (conn s source) (port_node_id s target) @ replicate n (name_of s target) \<and>
           names_at (conn s' target) (port_node_id s source) =
             names_at (conn s target) (port_node_id s source) @ replicate n (name_of s source)"
    using repeat_redo [OF assms, of n s] by blast
  have two: "\<exists>s'. PortConnectedCmd_undo source target s = Inr s' \<and>
           names_at (conn s' source) (port_node_id s target) =
             remove1 (name_of s target) (names_at (conn s source) (port_node_id s target)) \<and>
           names_at (conn s' target) (port_node_id s source) =
             remove1 (name_of s source) (names_at (conn s target) (port_node_id s source))"
    using assms by (simp add: PortConnectedCmd_undo_eq conn_disconnected names_at_drop_name)
  obtain s2 where s2: "repeat_cmd 2 (PortConnectedCmd_redo source target) s = Inr s2"
     "\<forall>q. port_node_id s2 q = port_node_id s q" "\<forall>q. name_of s2 q = name_of s q"
     "names_at (conn s2 source) (port_node_id s target) =
       names_at (conn s source) (port_node_id s target) @ replicate 2 (name_of s target)"
     "names_at (conn s2 target) (port_node_id s source) =
       names_at (conn s target) (port_node_id s source) @ replicate 2 (name_of s source)"
    using repeat_redo [OF assms, of 2 s] by blast
  have three: "\<exists>s'. and_then (repeat_cmd 2 (PortConnectedCmd_redo source target) s)
                  (PortConnectedCmd_undo source target) = Inr s' \<and>
           count_list (names_at (conn s' source) (port_node_id s target)) (name_of s target) =
             count_list (names_at (conn s source) (port_node_id s target)) (name_of s target) + 1 \<and>
           count_list (names_at (conn s' target) (port_node_id s source)) (name_of s source) =
             count_list (names_at (conn s target) (port_node_id s source)) (name_of s source) + 1"
    using assms s2
    by (simp add: PortConnectedCmd_undo_eq conn_disconnected names_at_drop_name
          numeral_2_eq_2 count_list_remove1_append2 del: repeat_cmd.simps)
  show ?thesis using one two three by blast
qed


theorem connecting_is_not_idempotent_witness:
  "(0::nat) \<noteq> 1 \<and>
   (\<exists>s'. and_then (repeat_cmd 2 (PortConnectedCmd_redo 0 1) example_state)
            (PortConnectedCmd_undo 0 1) = Inr s' \<and>
         count_list (names_at (conn s' 0) ''n2'') ''in'' = 1 \<and>
         count_list (names_at (conn s' 1) ''n1'') ''out'' = 1)"
proof -
  have h: "(0::nat) \<noteq> 1" by simp
  have k: "port_node_id example_state 0 = ''n1''" "port_node_id example_state 1 = ''n2''"
     "name_of example_state 0 = ''out''" "name_of example_state 1 = ''in''"
     "names_at (conn example_state 0) ''n2'' = []" "names_at (conn example_state 1) ''n1'' = []"
    by (simp_all add: example_defs names_at_def)
  obtain s' where s': "and_then (repeat_cmd 2 (PortConnectedCmd_redo 0 1) example_state)
                  (PortConnectedCmd_undo 0 1) = Inr s'"
      "count_list (names_at (conn s' 0) (port_node_id example_state 1)) (name_of example_state 1) =
         count_list (names_at (conn example_state 0) (port_node_id example_state 1)) (name_of example_state 1) + 1"
      "count_list (names_at (conn s' 1) (port_node_id example_state 0)) (name_of example_state 0) =
         count_list (names_at (conn example_state 1) (port_node_id example_state 0)) (name_of example_state 0) + 1"
    using connecting_is_not_idempotent [OF h, of 0 example_state] by blast
  show ?thesis using s' k by simp
qed

subsection \<open>The two pairs of port transformations\<close>

text \<open>
  The redo of the port-connected command and the undo of the port-disconnected command
  are the same function, which is the transformation the spec describes; so are the undo
  of the first and the redo of the second.
\<close>

lemma port_commands_agree:
  "PortConnectedCmd_redo source target s = PortDisconnectedCmd_undo source target s \<and>
   PortConnectedCmd_redo source target s = Inr (spec_connect source target s) \<and>
   PortConnectedCmd_undo source target s = PortDisconnectedCmd_redo source target s"
  by (simp add: PortConnectedCmd_redo_eq PortDisconnectedCmd_undo_eq PortConnectedCmd_undo_eq
        PortDisconnectedCmd_redo_eq spec_connect_def connected_def getitem_append_eq Let_def)

lemma example_emptied_facts:
  "port_node_id example_emptied 0 = ''n1''" "port_node_id example_emptied 1 = ''n2''"
  "name_of example_emptied 0 = ''out''" "name_of example_emptied 1 = ''in''"
  "conn example_emptied 0 = [''n2'' \<mapsto> []]" "conn example_emptied 1 = [''n1'' \<mapsto> []]"
  "port_node_id example_emptied (Suc 0) = ''n2''" "name_of example_emptied (Suc 0) = ''in''"
  "conn example_emptied (Suc 0) = [''n1'' \<mapsto> []]"
  by (simp_all add: example_defs example_emptied_def)

text \<open>
  Claim C5 has the inverse transformation prune an emptied key. Where both ports hold the
  peer's key with an empty list, the spec's transformation removes the keys; the two
  commands leave them.
\<close>

theorem emptied_key_is_not_pruned:
  "(\<exists>s'. PortConnectedCmd_undo 0 1 example_emptied = Inr s' \<and>
         PortDisconnectedCmd_redo 0 1 example_emptied = Inr s' \<and>
         conn s' 0 = [''n2'' \<mapsto> []] \<and> conn s' 1 = [''n1'' \<mapsto> []]) \<and>
   conn (spec_disconnect 0 1 example_emptied) 0 = Map.empty \<and>
   conn (spec_disconnect 0 1 example_emptied) 1 = Map.empty"
proof -
  have a: "conn (disconnected 0 1 example_emptied) 0 = [''n2'' \<mapsto> []]"
          "conn (disconnected 0 1 example_emptied) 1 = [''n1'' \<mapsto> []]"
    by (simp_all add: conn_disconnected example_emptied_facts drop_name_def)
  have b: "conn (spec_disconnect 0 1 example_emptied) 0 = Map.empty"
          "conn (spec_disconnect 0 1 example_emptied) 1 = Map.empty"
    by (simp_all add: spec_disconnect_def Let_def example_emptied_facts spec_remove_def drop_name_def)
  show ?thesis
    using a b by (simp add: PortConnectedCmd_undo_eq PortDisconnectedCmd_redo_eq)
qed

subsection \<open>Connection symmetry\<close>

lemma example_state_facts:
  "port_node_id example_state 0 = ''n1''" "port_node_id example_state 1 = ''n2''"
  "port_node_id example_state (Suc 0) = ''n2''" "port_node_id example_state 2 = ''n2''"
  "name_of example_state 0 = ''out''" "name_of example_state 1 = ''in''"
  "name_of example_state (Suc 0) = ''in''" "name_of example_state 2 = ''in''"
  "conn example_state p = Map.empty"
  "opposite example_state 0 1" "opposite example_state 0 (Suc 0)" "\<not> opposite example_state 0 2"
  "opposite example_state 1 2" "opposite example_state (Suc 0) 2"
  by (simp_all add: example_defs opposite_def)

lemma listed_example_state: "\<not> listed example_state p q"
  by (simp add: listed_def example_state_facts contains_def dict_get_def)

lemma example_redo:
  "PortConnectedCmd_redo 0 1 example_state = Inr example_linked"
  by (simp add: PortConnectedCmd_redo_def Let_def example_defs example_linked_def set_conn_def
        view_call_def getitem_append_def defaultdict_getitem_def fun_upd_twist)

lemma example_linked_facts:
  "port_node_id example_linked 0 = ''n1''" "port_node_id example_linked 2 = ''n2''"
  "name_of example_linked 0 = ''out''" "name_of example_linked 2 = ''in''"
  "conn example_linked 0 = [''n2'' \<mapsto> [''in'']]" "conn example_linked 2 = Map.empty"
  by (simp_all add: example_defs example_linked_def)

text \<open>
  Claim C2 fails as stated. Node \<^verbatim>\<open>n2\<close> has an input and an output both named \<^verbatim>\<open>in\<close>
  (names are unique per direction only). Nothing is connected, so INV-1 holds. After
  \<^verbatim>\<open>PortConnectedCmd.redo\<close> on port 0 and the input of \<^verbatim>\<open>n2\<close>, port 0 lists the name \<^verbatim>\<open>in\<close>
  under \<^verbatim>\<open>n2\<close>, which is also the name and node of the output port 2, and port 2 lists
  nothing: INV-1, taken over all pairs of ports, is broken.
\<close>

theorem symmetry_breaks_on_shared_name:
  "INV1 [0, 1, 2] example_state \<and>
   PortConnectedCmd_redo 0 1 example_state = Inr example_linked \<and>
   \<not> INV1 [0, 1, 2] example_linked"
proof -
  have a: "INV1 [0, 1, 2] example_state"
    by (simp add: INV1_def listed_example_state)
  have b: "listed example_linked 0 2"
    by (simp add: listed_def example_linked_facts contains_def dict_get_def)
  have c: "\<not> listed example_linked 2 0"
    by (simp add: listed_def example_linked_facts contains_def dict_get_def)
  have "\<not> INV1 [0, 1, 2] example_linked"
    using b c by (auto simp: INV1_def)
  then show ?thesis using a example_redo by simp
qed

lemma count_list_remove1:
  "count_list (remove1 x xs) y = (if x = y then count_list xs y - 1 else count_list xs y)"
  by (induction xs) auto

lemma count_list_pos_iff: "0 < count_list xs x \<longleftrightarrow> x \<in> set xs"
  using count_list_0_iff [of xs x] by auto

lemma listed_iff_occurrences: "listed s p q \<longleftrightarrow> 0 < occurrences s p q"
  by (auto simp: listed_def occurrences_def contains_def dict_get_def names_at_def
        count_list_pos_iff split: option.splits)

lemma opposite_set_conn [simp]: "opposite (set_conn r d s) p q = opposite s p q"
  by (simp add: opposite_def set_conn_def)

lemma opposite_view_call [simp]: "opposite (view_call c s) p q = opposite s p q"
  by (simp add: opposite_def view_call_def)

lemma opposite_connected [simp]: "opposite (connected a b s) p q = opposite s p q"
  by (simp add: connected_def Let_def)

lemma opposite_disconnected [simp]: "opposite (disconnected a b s) p q = opposite s p q"
  by (simp add: disconnected_def Let_def)

lemma opposite_sym: "opposite s p q = opposite s q p"
  by (auto simp: opposite_def)

lemma opposite_irrefl [simp]: "\<not> opposite s p p"
  by (simp add: opposite_def)

lemma two_directions: "opposite s a b \<Longrightarrow> opposite s a c \<Longrightarrow> \<not> opposite s b c"
  by (cases "port_type (port_objs s a)"; cases "port_type (port_objs s b)"; cases "port_type (port_objs s c)")
     (simp_all add: opposite_def)


lemma occurrences_connected:
  assumes "source \<noteq> target"
  shows "occurrences (connected source target s) p q =
     occurrences s p q + (if p = source \<and> peer_like s q target then 1 else 0)
                       + (if p = target \<and> peer_like s q source then 1 else 0)"
  using assms
  by (auto simp: occurrences_def conn_connected names_at_getitem_append peer_like_def)

lemma occurrences_disconnected:
  assumes "source \<noteq> target"
  shows "occurrences (disconnected source target s) p q =
     occurrences s p q - ((if p = source \<and> peer_like s q target then 1 else 0)
                       + (if p = target \<and> peer_like s q source then 1 else 0))"
  using assms
  by (auto simp: occurrences_def conn_disconnected names_at_drop_name peer_like_def count_list_remove1)

lemma peer_like_identified:
  assumes "ports_identified ps s" "q \<in> set ps" "r \<in> set ps" "p \<in> set ps"
    and "opposite s p q" "opposite s p r"
  shows "peer_like s q r \<longleftrightarrow> q = r"
proof
  assume "peer_like s q r"
  moreover have "\<not> opposite s q r" using two_directions assms(5,6) by blast
  ultimately show "q = r"
    using assms(1-3) by (auto simp: ports_identified_def peer_like_def)
qed (simp add: peer_like_def)


lemma peer_indicators:
  assumes "ports_identified ps s" "p \<in> set ps" "q \<in> set ps" "source \<in> set ps" "target \<in> set ps"
    and "opposite s p q" "opposite s source target"
  shows "(p = source \<and> peer_like s q target) \<longleftrightarrow> (p = source \<and> q = target)"
    and "(p = target \<and> peer_like s q source) \<longleftrightarrow> (p = target \<and> q = source)"
proof -
  show "(p = source \<and> peer_like s q target) \<longleftrightarrow> (p = source \<and> q = target)"
    using peer_like_identified [OF assms(1) assms(3) assms(5) assms(4)] assms(6,7) by blast
  have "opposite s target source" using assms(7) opposite_sym by blast
  then show "(p = target \<and> peer_like s q source) \<longleftrightarrow> (p = target \<and> q = source)"
    using peer_like_identified [OF assms(1) assms(3) assms(4) assms(5)] assms(6) by blast
qed

lemma ports_identified_connected [simp]:
  "ports_identified ps (connected a b s) = ports_identified ps s"
  by (simp add: ports_identified_def)

lemma ports_identified_disconnected [simp]:
  "ports_identified ps (disconnected a b s) = ports_identified ps s"
  by (simp add: ports_identified_def)

lemma ports_identified_view_call [simp]:
  "ports_identified ps (view_call c s) = ports_identified ps s"
  by (simp add: ports_identified_def)

lemma occurrences_view_call [simp]: "occurrences (view_call c s) p q = occurrences s p q"
  by (simp add: occurrences_def)

lemma INV1_counting_view_call [simp]: "INV1_counting ps (view_call c s) = INV1_counting ps s"
  by (simp add: INV1_counting_def)

lemma INV1_counting_connected:
  assumes "ports_identified ps s" "INV1_counting ps s" "source \<in> set ps" "target \<in> set ps"
    and "opposite s source target"
  shows "INV1_counting ps (connected source target s)"
  unfolding INV1_counting_def
proof (intro ballI impI)
  fix p q assume pq: "p \<in> set ps" "q \<in> set ps" "opposite (connected source target s) p q"
  then have opp: "opposite s p q" "opposite s q p" using opposite_sym by auto
  have ne: "source \<noteq> target" using assms(5) by auto
  have old: "occurrences s p q = occurrences s q p"
    using assms(2) pq(1,2) opp(1) unfolding INV1_counting_def by blast
  note i1 = peer_indicators [OF assms(1) pq(1) pq(2) assms(3) assms(4) opp(1) assms(5)]
  note i2 = peer_indicators [OF assms(1) pq(2) pq(1) assms(3) assms(4) opp(2) assms(5)]
  have e1: "occurrences (connected source target s) p q =
      occurrences s p q + ((if p = source \<and> q = target then 1 else 0) + (if p = target \<and> q = source then 1 else 0))"
    by (simp only: occurrences_connected [OF ne] i1 add.assoc)
  have e2: "occurrences (connected source target s) q p =
      occurrences s q p + ((if q = source \<and> p = target then 1 else 0) + (if q = target \<and> p = source then 1 else 0))"
    by (simp only: occurrences_connected [OF ne] i2 add.assoc)
  have e3: "((if p = source \<and> q = target then 1 else 0) + (if p = target \<and> q = source then 1 else 0) :: nat) =
      (if q = source \<and> p = target then 1 else 0) + (if q = target \<and> p = source then 1 else 0)"
    by (subst add.commute) (simp only: conj_commute)
  show "occurrences (connected source target s) p q = occurrences (connected source target s) q p"
    by (simp only: e1 e2 e3 old)
qed

lemma INV1_counting_disconnected:
  assumes "ports_identified ps s" "INV1_counting ps s" "source \<in> set ps" "target \<in> set ps"
    and "opposite s source target"
  shows "INV1_counting ps (disconnected source target s)"
  unfolding INV1_counting_def
proof (intro ballI impI)
  fix p q assume pq: "p \<in> set ps" "q \<in> set ps" "opposite (disconnected source target s) p q"
  then have opp: "opposite s p q" "opposite s q p" using opposite_sym by auto
  have ne: "source \<noteq> target" using assms(5) by auto
  have old: "occurrences s p q = occurrences s q p"
    using assms(2) pq(1,2) opp(1) unfolding INV1_counting_def by blast
  note i1 = peer_indicators [OF assms(1) pq(1) pq(2) assms(3) assms(4) opp(1) assms(5)]
  note i2 = peer_indicators [OF assms(1) pq(2) pq(1) assms(3) assms(4) opp(2) assms(5)]
  have e1: "occurrences (disconnected source target s) p q =
      occurrences s p q - ((if p = source \<and> q = target then 1 else 0) + (if p = target \<and> q = source then 1 else 0))"
    by (simp only: occurrences_disconnected [OF ne] i1 add.assoc)
  have e2: "occurrences (disconnected source target s) q p =
      occurrences s q p - ((if q = source \<and> p = target then 1 else 0) + (if q = target \<and> p = source then 1 else 0))"
    by (simp only: occurrences_disconnected [OF ne] i2 add.assoc)
  have e3: "((if p = source \<and> q = target then 1 else 0) + (if p = target \<and> q = source then 1 else 0) :: nat) =
      (if q = source \<and> p = target then 1 else 0) + (if q = target \<and> p = source then 1 else 0)"
    by (subst add.commute) (simp only: conj_commute)
  show "occurrences (disconnected source target s) p q = occurrences (disconnected source target s) q p"
    by (simp only: e1 e2 e3 old)
qed

lemma INV1_counting_imp_opposite: "INV1_counting ps s \<Longrightarrow> INV1_opposite ps s"
  unfolding INV1_counting_def INV1_opposite_def listed_iff_occurrences by metis

text \<open>
  Claim C2, amended. Let the ports \<open>ps\<close> of the document be identified by node id,
  direction and name, and let every two ports of opposite direction list each other
  equally often. Then each of the four port transformations, run on an input and an
  output among \<open>ps\<close>, returns a state with the same two properties; in it, for ports
  \<open>P\<close> and \<open>Q\<close> of opposite direction, \<open>Q\<close>'s name is in \<open>P\<close>'s connection set under
  \<open>Q\<close>'s node id iff \<open>P\<close>'s name is in \<open>Q\<close>'s under \<open>P\<close>'s node id.
\<close>

theorem symmetry_by_count_is_preserved:
  assumes "ports_identified ps s" and "INV1_counting ps s"
    and "source \<in> set ps" and "target \<in> set ps" and "opposite s source target"
    and "f \<in> {PortConnectedCmd_redo, PortConnectedCmd_undo, PortDisconnectedCmd_redo, PortDisconnectedCmd_undo}"
  shows "\<exists>s'. f source target s = Inr s' \<and> ports_identified ps s' \<and> INV1_counting ps s' \<and> INV1_opposite ps s'"
proof -
  note c = INV1_counting_connected [OF assms(1-5)] and d = INV1_counting_disconnected [OF assms(1-5)]
  have "f source target s = Inr (view_call (PortViewConnectTo source target) (connected source target s)) \<or>
        f source target s = Inr (view_call (PortViewDisconnectFrom source target) (disconnected source target s))"
    using assms(6)
    by (auto simp: PortConnectedCmd_redo_eq PortConnectedCmd_undo_eq PortDisconnectedCmd_redo_eq
          PortDisconnectedCmd_undo_eq)
  then show ?thesis
    using c d assms(1) INV1_counting_imp_opposite [of ps "view_call _ _"] 
    by (auto simp: INV1_counting_imp_opposite)
qed


lemma example_state_identified: "ports_identified [0, 1, 2] example_state"
  by (simp add: ports_identified_def example_state_facts opposite_sym [of _ 2 "Suc 0"] opposite_sym [of _ 2 0]
       opposite_sym [of _ "Suc 0" 0])

lemma example_state_counting: "INV1_counting [0, 1, 2] example_state"
  by (simp add: INV1_counting_def occurrences_def example_state_facts names_at_def)

theorem symmetry_by_count_is_preserved_witness:
  "ports_identified [0, 1, 2] example_state \<and> INV1_counting [0, 1, 2] example_state \<and>
   opposite example_state 0 1 \<and>
   (\<exists>s'. PortConnectedCmd_redo 0 1 example_state = Inr s' \<and>
         INV1_counting [0, 1, 2] s' \<and> INV1_opposite [0, 1, 2] s')"
proof -
  have m: "(0::nat) \<in> set [0, 1, 2]" "(1::nat) \<in> set [0, 1, 2]" by simp_all
  have f: "PortConnectedCmd_redo \<in> {PortConnectedCmd_redo, PortConnectedCmd_undo,
            PortDisconnectedCmd_redo, (PortDisconnectedCmd_undo :: nat \<Rightarrow> nat \<Rightarrow> nat graph_state \<Rightarrow> _)}"
    by simp
  from symmetry_by_count_is_preserved
         [OF example_state_identified example_state_counting m example_state_facts(10) f]
  show ?thesis
    using example_state_identified example_state_counting example_state_facts(10) by blast
qed

section \<open>Verification: the property command\<close>

text \<open>
  Claim C7. A property command whose old value equals its new value changes nothing:
  \<^verbatim>\<open>redo\<close> and \<^verbatim>\<open>undo\<close> return the state they were given, with the model, the views, the
  properties bin and the record of view calls as they were. This is the case of a command
  constructed with the value the node already has.
\<close>

theorem unchanged_property_is_a_no_op:
  "old_val = new_val \<Longrightarrow>
     PropertyChangedCmd_redo node name old_val new_val s = Inr s \<and>
     PropertyChangedCmd_undo node name old_val new_val s = Inr s \<and>
     cmd_redo (PropertyChangedCmd node name old_val new_val) s = Inr s \<and>
     cmd_undo (PropertyChangedCmd node name old_val new_val) s =
       Inr (PropertyChangedCmd node name old_val new_val, s) \<and>
     cmd_redo (PropertyChangedCmd_init s0 node name (get_property s0 node name)) s = Inr s \<and>
     cmd_undo (PropertyChangedCmd_init s0 node name (get_property s0 node name)) s =
       Inr (PropertyChangedCmd_init s0 node name (get_property s0 node name), s)"
  by (simp add: PropertyChangedCmd_redo_def PropertyChangedCmd_undo_def PropertyChangedCmd_init_def)

theorem unchanged_property_is_a_no_op_witness:
  "(0::nat) = 0 \<and>
   PropertyChangedCmd_redo 0 ''pos'' 0 0 example_state = Inr example_state \<and>
   PropertyChangedCmd_undo 0 ''pos'' 0 0 example_state = Inr example_state \<and>
   view_calls example_state = []"
proof -
  have h: "(0::nat) = 0" by simp
  show ?thesis
    using unchanged_property_is_a_no_op [OF h, of 0 "''pos''" example_state]
    by (simp add: example_state_def)
qed

text \<open>
  For contrast: with different values \<^verbatim>\<open>redo\<close> writes the new value into the model and
  \<^verbatim>\<open>undo\<close> the old one.
\<close>

lemma get_property_set_node_prop:
  "get_property (set_node_prop node name v s) node name = v"
  by (simp add: get_property_def set_node_prop_def set_property_def widget_set_value_def
        view_setattr_def view_call_def Let_def split: option.splits)

lemma get_property_update_prop_bin:
  "get_property (update_prop_bin node name v s) n k = get_property s n k"
  by (simp add: get_property_def update_prop_bin_def prop_wgt_set_value_def view_call_def
        split: option.splits)

lemma changed_property_is_written:
  "old_val \<noteq> new_val \<Longrightarrow>
     (\<exists>s'. PropertyChangedCmd_redo node name old_val new_val s = Inr s' \<and>
           get_property s' node name = new_val) \<and>
     (\<exists>s'. PropertyChangedCmd_undo node name old_val new_val s = Inr s' \<and>
           get_property s' node name = old_val)"
  by (simp add: PropertyChangedCmd_redo_def PropertyChangedCmd_undo_def
        get_property_update_prop_bin get_property_set_node_prop)

section \<open>Verification: topological sort\<close>

subsection \<open>Degenerate inputs\<close>

text \<open>
  Claim C8. With no start node and no candidate, or with candidates that all have a pipe
  on an input port, the result is the empty list. With start nodes none of which has a
  pipe on an output port, the result is the list of start nodes as given; so a node
  without connections, passed as the only start node, comes back alone.
\<close>

theorem degenerate_inputs:
  "topological_sort g [] [] = Some (Inr []) \<and>
   ((\<forall>n \<in> set all_nodes. has_input_node g n) \<longrightarrow> topological_sort g [] all_nodes = Some (Inr [])) \<and>
   (start_nodes \<noteq> [] \<and> (\<forall>n \<in> set start_nodes. \<not> has_output_node g n) \<longrightarrow>
      topological_sort g start_nodes all_nodes = Some (Inr start_nodes)) \<and>
   (\<not> has_output_node g node \<longrightarrow> topological_sort g [node] all_nodes = Some (Inr [node]))"
  by (auto simp: topological_sort_def Let_def filter_empty_conv)

lemmas example_graph_defs = example_graph_def two_cycle_def isolated_def diamond_def
  has_input_node_def has_output_node_def

theorem degenerate_inputs_witness:
  "has_input_node two_cycle 0 \<and> has_input_node two_cycle 1 \<and>
   topological_sort two_cycle [] [0, 1] = Some (Inr []) \<and>
   [7::nat] \<noteq> [] \<and> \<not> has_output_node isolated 7 \<and>
   topological_sort isolated [7] [0, 7] = Some (Inr [7])"
proof -
  have a: "\<forall>n \<in> set [0, 1]. has_input_node two_cycle n"
    by (simp add: example_graph_defs)
  have b: "[7::nat] \<noteq> [] \<and> (\<forall>n \<in> set [7]. \<not> has_output_node isolated n)"
    by (simp add: example_graph_defs)
  have "topological_sort two_cycle [] [0, 1] = Some (Inr [])"
    using degenerate_inputs [where g = two_cycle and all_nodes = "[0, 1]"] a by blast
  moreover have "topological_sort isolated [7] [0, 7] = Some (Inr [7])"
    using degenerate_inputs [where g = isolated and start_nodes = "[7]" and all_nodes = "[0, 7]"] b
    by blast
  ultimately show ?thesis using a b by simp
qed

subsection \<open>Building the graph\<close>

lemma map_of_dict_setitem [simp]: "map_of (dict_setitem d k v) = (map_of d)(k \<mapsto> v)"
  by (induction d) (auto simp: fun_eq_iff)

lemma keys_dict_setitem [simp]: "fst ` set (dict_setitem d k v) = insert k (fst ` set d)"
  by (simp add: dom_map_of_conv_image_fst [symmetric])

lemma distinct_dict_setitem [simp]:
  "distinct (map fst d) \<Longrightarrow> distinct (map fst (dict_setitem d k v))"
proof (induction d)
  case Nil
  show ?case by simp
next
  case (Cons a d)
  have "fst ` set (dict_setitem d k v) = insert k (fst ` set d)" by simp
  then show ?case using Cons by (cases a) (auto simp del: keys_dict_setitem)
qed

lemma keys_dom: "keys d = dom (map_of d)"
  by (simp add: keys_def dom_map_of_conv_image_fst)

lemma build_graph_for_props:
  assumes "build_graph_for g ns (graph, acc) = (graph', acc')" "adjacency g graph"
    "pending g graph (X \<union> set ns \<union> set acc)"
  shows "adjacency g graph' \<and> keys graph' = keys graph \<union> set ns \<and>
         pending g graph' (X \<union> set acc') \<and>
         set acc' \<subseteq> set acc \<union> (\<Union>n \<in> set ns. set (get_output_nodes g n)) \<and>
         (set ns \<subseteq> keys graph \<longrightarrow> graph' = graph \<and> acc' = acc)"
  using assms
proof (induction ns arbitrary: graph acc)
  case Nil
  then show ?case by (auto simp: pending_def)
next
  case (Cons n ns)
  show ?case
  proof (cases "n \<in> keys graph")
    case True
    then have step: "build_graph_for g ns (graph, acc) = (graph', acc')"
      using Cons.prems(1) by (simp add: keys_def)
    have "pending g graph (X \<union> set ns \<union> set acc)"
      using Cons.prems(3) True by (auto simp: pending_def)
    from Cons.IH [OF step Cons.prems(2) this] True show ?thesis by auto
  next
    case False
    let ?graph1 = "dict_setitem graph n (get_output_nodes g n)"
    let ?acc1 = "acc @ get_output_nodes g n"
    have step: "build_graph_for g ns (?graph1, ?acc1) = (graph', acc')"
      using Cons.prems(1) False by (simp add: keys_def Let_def)
    have adj: "adjacency g ?graph1"
      using Cons.prems(2) by (auto simp: adjacency_def)
    have k1: "keys ?graph1 = insert n (keys graph)" by (simp add: keys_def)
    have "pending g ?graph1 (X \<union> set ns \<union> set ?acc1)"
      using Cons.prems(3) unfolding pending_def k1 by auto
    from Cons.IH [OF step adj this] k1 False show ?thesis by auto
  qed
qed


lemma build_graph_while_returns:
  assumes fin: "finite F" and closed: "\<forall>n \<in> F. set (get_output_nodes g n) \<subseteq> F"
  shows "adjacency g graph \<Longrightarrow> pending g graph (set outs) \<Longrightarrow> keys graph \<subseteq> F \<Longrightarrow> set outs \<subseteq> F \<Longrightarrow>
     \<exists>graph'. build_graph_while g graph outs = Some graph' \<and> adjacency g graph' \<and>
        pending g graph' {} \<and> keys graph \<union> set outs \<subseteq> keys graph' \<and> keys graph' \<subseteq> F"
proof (induction "2 * card (F - keys graph) + (if outs = [] then 0 else 1)"
        arbitrary: graph outs rule: less_induct)
  case less
  show ?case
  proof (cases "outs = []")
    case True
    then show ?thesis
      using less.prems by (subst build_graph_while.simps) simp
  next
    case False
    obtain graph1 outs1 where step: "build_graph_for g outs (graph, []) = (graph1, outs1)"
      by (cases "build_graph_for g outs (graph, [])")
    have pend: "pending g graph ({} \<union> set outs \<union> set [])" using less.prems(2) by simp
    note props = build_graph_for_props [OF step less.prems(1) pend]
    have adj1: "adjacency g graph1" and k1: "keys graph1 = keys graph \<union> set outs"
      and pend1: "pending g graph1 (set outs1)"
      and same: "set outs \<subseteq> keys graph \<Longrightarrow> graph1 = graph \<and> outs1 = []"
      using props by auto
    have "set outs1 \<subseteq> (\<Union>n \<in> set outs. set (get_output_nodes g n))"
      using props by simp
    then have outs1: "set outs1 \<subseteq> F"
      using closed less.prems(4) by blast
    have kF: "keys graph1 \<subseteq> F" using k1 less.prems(3,4) by auto
    have smaller: "2 * card (F - keys graph1) + (if outs1 = [] then 0 else 1)
                   < 2 * card (F - keys graph) + (if outs = [] then 0 else 1)"
    proof (cases "set outs \<subseteq> keys graph")
      case True
      then show ?thesis using same False by simp
    next
      case False
      then have "F - keys graph1 \<subset> F - keys graph"
        using k1 less.prems(4) by auto
      then have "card (F - keys graph1) < card (F - keys graph)"
        using fin by (simp add: psubset_card_mono)
      then show ?thesis by auto
    qed
    obtain graph' where res: "build_graph_while g graph1 outs1 = Some graph'" "adjacency g graph'"
        "pending g graph' {}" "keys graph1 \<union> set outs1 \<subseteq> keys graph'" "keys graph' \<subseteq> F"
      using less.hyps [OF smaller adj1 pend1 kF outs1] by blast
    have "build_graph_while g graph outs = Some graph'"
      using res(1) step False by (subst build_graph_while.simps) simp
    then show ?thesis using res k1 by auto
  qed
qed

lemma build_graph_from_returns:
  assumes fin: "finite F" and closed: "\<forall>n \<in> F. set (get_output_nodes g n) \<subseteq> F"
  shows "adjacency g graph \<Longrightarrow> pending g graph {} \<Longrightarrow> keys graph \<subseteq> F \<Longrightarrow> set starts \<subseteq> F \<Longrightarrow>
     \<exists>graph'. build_graph_from g starts graph = Some graph' \<and> adjacency g graph' \<and>
        pending g graph' {} \<and> keys graph \<union> set starts \<subseteq> keys graph' \<and> keys graph' \<subseteq> F"
proof (induction starts arbitrary: graph)
  case Nil
  then show ?case by simp
next
  case (Cons node rest)
  let ?outs = "get_output_nodes g node"
  let ?graph1 = "dict_setitem graph node ?outs"
  have adj1: "adjacency g ?graph1" using Cons.prems(1) by (auto simp: adjacency_def)
  have k1: "keys ?graph1 = insert node (keys graph)" by (simp add: keys_def)
  have pend1: "pending g ?graph1 (set ?outs)"
    using Cons.prems(2) unfolding pending_def k1 by auto
  have kF: "keys ?graph1 \<subseteq> F" using k1 Cons.prems(3,4) by auto
  have oF: "set ?outs \<subseteq> F" using closed Cons.prems(4) by auto
  obtain graph2 where g2: "build_graph_while g ?graph1 ?outs = Some graph2" "adjacency g graph2"
      "pending g graph2 {}" "keys ?graph1 \<union> set ?outs \<subseteq> keys graph2" "keys graph2 \<subseteq> F"
    using build_graph_while_returns [OF fin closed adj1 pend1 kF oF] by blast
  have rF: "set rest \<subseteq> F" using Cons.prems(4) by simp
  obtain graph' where res: "build_graph_from g rest graph2 = Some graph'" "adjacency g graph'"
      "pending g graph' {}" "keys graph2 \<union> set rest \<subseteq> keys graph'" "keys graph' \<subseteq> F"
    using Cons.IH [OF g2(2) g2(3) g2(5) rF] by blast
  have "build_graph_from g (node # rest) graph = Some graph'"
    using g2(1) res(1) by (simp add: Let_def)
  then show ?case using res g2(4) k1 by auto
qed

lemma reachable_closed: "\<forall>n \<in> reachable g starts. set (get_output_nodes g n) \<subseteq> reachable g starts"
  by (auto simp: reachable_def edges_def intro: rtrancl_into_rtrancl)

lemma closed_contains_reachable:
  assumes "pending g graph {}" "set starts \<subseteq> keys graph"
  shows "reachable g starts \<subseteq> keys graph"
proof
  fix v assume "v \<in> reachable g starts"
  then obtain u where u: "u \<in> set starts" "(u, v) \<in> (edges g)\<^sup>*" by (auto simp: reachable_def)
  from u(2) show "v \<in> keys graph"
  proof (induction rule: rtrancl_induct)
    case base
    then show ?case using u(1) assms(2) by auto
  next
    case (step y z)
    then show ?case using assms(1) by (auto simp: pending_def edges_def)
  qed
qed

lemma build_graph_returns:
  assumes "finite (reachable g starts)"
  shows "\<exists>graph. build_graph g starts = Some graph \<and> adjacency g graph \<and>
           keys graph = reachable g starts"
proof -
  have s: "set starts \<subseteq> reachable g starts" by (auto simp: reachable_def)
  have e: "adjacency g []" "pending g [] {}" "keys ([] :: ('a \<times> 'a list) list) \<subseteq> reachable g starts"
    by (simp_all add: adjacency_def pending_def keys_def)
  obtain graph where res: "build_graph_from g starts [] = Some graph" "adjacency g graph"
      "pending g graph {}" "set starts \<subseteq> keys graph" "keys graph \<subseteq> reachable g starts"
    using build_graph_from_returns [OF assms reachable_closed e s] by auto
  have "reachable g starts \<subseteq> keys graph"
    using closed_contains_reachable [OF res(3)] res(4) by simp
  then show ?thesis using res by (auto simp: build_graph_def)
qed

subsection \<open>The traversal\<close>

lemma keys_setitem [simp]: "keys (dict_setitem d k v) = insert k (keys d)"
  by (simp add: keys_def)

lemma visited_setitem [simp]: "visited (dict_setitem visit k True) = insert k (visited visit)"
  by (auto simp: visited_def)

lemma getitem_key: "k \<in> keys d \<Longrightarrow> \<exists>v. dict_getitem d k = Inr v"
  by (auto simp: keys_dom dict_getitem_Inr)

lemma getitem_visit: "dict_getitem visit k = Inr b \<Longrightarrow> (k \<in> visited visit \<longleftrightarrow> b)"
  by (auto simp: dict_getitem_Inr visited_def)

lemma closed_graphD:
  assumes "closed_graph graph" "dict_getitem graph n = Inr ns"
  shows "set ns \<subseteq> keys graph"
proof -
  have "map_of graph n = Some ns"
    using assms(2) by (simp add: dict_getitem_Inr)
  then show ?thesis
    using assms(1) unfolding closed_graph_def by blast
qed

lemma dfs_returns:
  "closed_graph graph \<Longrightarrow> keys (fst st) = keys graph \<Longrightarrow> u \<in> keys graph \<Longrightarrow>
     \<exists>visit' sorted'. dfs graph u st = Inr (visit', sorted') \<and> keys visit' = keys graph"
  "closed_graph graph \<Longrightarrow> keys (fst st) = keys graph \<Longrightarrow> set ns \<subseteq> keys graph \<Longrightarrow>
     \<exists>visit' sorted'. dfs_for graph ns st = Inr (visit', sorted') \<and> keys visit' = keys graph"
proof (induction graph u st and graph ns st rule: dfs_dfs_for.induct)
  case (1 graph start_node st)
  from getitem_key [OF "1.prems"(3)]
  obtain end_nodes where e: "dict_getitem graph start_node = Inr end_nodes" ..
  have sub: "set end_nodes \<subseteq> keys graph"
    using closed_graphD [OF "1.prems"(1) e] .
  from "1.IH" [OF e "1.prems"(1,2) sub]
  obtain visit' sorted' where r: "dfs_for graph end_nodes st = Inr (visit', sorted')"
      "keys visit' = keys graph" by (elim exE conjE)
  have "dfs graph start_node st = Inr (visit', sorted' @ [start_node])"
    by (subst dfs.simps) (simp add: e r(1))
  then show ?case using r(2) by (intro exI conjI)
next
  case (2 graph st)
  then show ?case by (cases st) simp
next
  case (3 graph end_node rest visit sorted_nodes)
  have kv: "keys visit = keys graph" using "3.prems"(2) by simp
  have en: "end_node \<in> keys graph" and r: "set rest \<subseteq> keys graph"
    using "3.prems"(3) by simp_all
  have "end_node \<in> keys visit" using en kv by simp
  from getitem_key [OF this]
  obtain seen where s: "dict_getitem visit end_node = Inr seen" ..
  show ?case
  proof (cases seen)
    case True
    then have nn: "\<not> \<not> seen" by simp
    from "3.IH"(3) [OF s nn "3.prems"(1,2) r]
    obtain visit' sorted' where res: "dfs_for graph rest (visit, sorted_nodes) = Inr (visit', sorted')"
        "keys visit' = keys graph" by (elim exE conjE)
    have "dfs_for graph (end_node # rest) (visit, sorted_nodes) = Inr (visit', sorted')"
      using res(1) s True by simp
    then show ?thesis using res(2) by (intro exI conjI)
  next
    case False
    have k1: "keys (fst (dict_setitem visit end_node True, sorted_nodes)) = keys graph"
      using kv en by (simp add: insert_absorb)
    from "3.IH"(1) [OF s False "3.prems"(1) k1 en]
    obtain visit1 sorted1 where d: "dfs graph end_node (dict_setitem visit end_node True, sorted_nodes) = Inr (visit1, sorted1)"
        "keys visit1 = keys graph" by (elim exE conjE)
    have k2: "keys (fst (visit1, sorted1)) = keys graph" using d(2) by simp
    from "3.IH"(2) [OF s False d(1) "3.prems"(1) k2 r]
    obtain visit' sorted' where res: "dfs_for graph rest (visit1, sorted1) = Inr (visit', sorted')"
        "keys visit' = keys graph" by (elim exE conjE)
    have "dfs_for graph (end_node # rest) (visit, sorted_nodes) = Inr (visit', sorted')"
      using res(1) s False d(1) by simp
    then show ?thesis using res(2) by (intro exI conjI)
  qed
qed

lemma dfs_from_eq: "dfs_from graph ns st = dfs_for graph ns st"
  by (induction graph ns st rule: dfs_from.induct) (auto split: sum.splits)


lemma before_append: "before xs x w \<Longrightarrow> before (xs @ ys) x w"
proof -
  assume "before xs x w"
  then obtain as bs where "xs = as @ bs" "x \<in> set as" "w \<in> set bs"
    unfolding before_def by (elim exE conjE)
  then have "xs @ ys = as @ (bs @ ys) \<and> x \<in> set as \<and> w \<in> set (bs @ ys)" by simp
  then show ?thesis unfolding before_def by (intro exI)
qed

lemma before_last: "x \<in> set xs \<Longrightarrow> before (xs @ [u]) x u"
  unfolding before_def by (intro exI [of _ xs] exI [of _ "[u]"]) simp

lemma graph_edges_iff: "(u, v) \<in> graph_edges graph \<longleftrightarrow> (\<exists>ns. dict_getitem graph u = Inr ns \<and> v \<in> set ns)"
  by (simp add: graph_edges_def dict_getitem_Inr)

lemma dfs_inv_finish:
  assumes inv: "dfs_inv graph visit sorted_nodes" and u: "u \<in> gray visit sorted_nodes"
    and e: "dict_getitem graph u = Inr ns" and fin: "set ns \<subseteq> set sorted_nodes"
  shows "dfs_inv graph visit (sorted_nodes @ [u])"
    and "gray visit (sorted_nodes @ [u]) = gray visit sorted_nodes - {u}"
proof -
  have uv: "u \<in> visited visit" and un: "u \<notin> set sorted_nodes"
    using u by (simp_all add: gray_def)
  have succ: "before (sorted_nodes @ [u]) x w"
    if w: "w \<in> set (sorted_nodes @ [u])" and wx: "(w, x) \<in> graph_edges graph" for w x
  proof (cases "w = u")
    case True
    then have "x \<in> set ns" using wx e by (simp add: graph_edges_iff)
    then have "x \<in> set sorted_nodes" using fin by (rule subsetD [rotated])
    then show ?thesis using True before_last by simp
  next
    case False
    then have "w \<in> set sorted_nodes" using w by simp
    then have "before sorted_nodes x w" using inv wx unfolding dfs_inv_def by simp
    then show ?thesis by (rule before_append)
  qed
  show "dfs_inv graph visit (sorted_nodes @ [u])"
    unfolding dfs_inv_def
  proof (intro conjI ballI allI impI)
    show "keys visit = keys graph" using inv by (simp add: dfs_inv_def)
    show "set (sorted_nodes @ [u]) \<subseteq> visited visit"
      using inv uv by (simp add: dfs_inv_def)
    show "distinct (sorted_nodes @ [u])" using inv un by (simp add: dfs_inv_def)
    show "before (sorted_nodes @ [u]) x w"
      if "w \<in> set (sorted_nodes @ [u])" "(w, x) \<in> graph_edges graph" for w x
      using that by (rule succ)
  qed
  show "gray visit (sorted_nodes @ [u]) = gray visit sorted_nodes - {u}"
    by (auto simp: gray_def)
qed

lemma dfs_inv_mark:
  assumes inv: "dfs_inv graph visit sorted_nodes" and x: "x \<in> keys graph"
  shows "dfs_inv graph (dict_setitem visit x True) sorted_nodes"
  using assms unfolding dfs_inv_def by (simp add: insert_absorb subset_insertI2)


lemma gray_mark:
  "x \<notin> visited visit \<Longrightarrow> set sorted_nodes \<subseteq> visited visit \<Longrightarrow>
     gray (dict_setitem visit x True) sorted_nodes = insert x (gray visit sorted_nodes)"
  by (auto simp: gray_def)

lemma dfs_order:
  "sound_graph graph \<Longrightarrow> dfs_inv graph (fst st) (snd st) \<Longrightarrow> u \<in> keys graph \<Longrightarrow>
     u \<in> gray (fst st) (snd st) \<Longrightarrow>
     (\<forall>w \<in> gray (fst st) (snd st). (w, u) \<in> (graph_edges graph)\<^sup>*) \<Longrightarrow>
     \<exists>visit' sorted'. dfs graph u st = Inr (visit', sorted') \<and> dfs_inv graph visit' sorted' \<and>
        gray visit' sorted' = gray (fst st) (snd st) - {u} \<and> u \<in> set sorted' \<and>
        set (snd st) \<subseteq> set sorted'"
  "sound_graph graph \<Longrightarrow> dfs_inv graph (fst st) (snd st) \<Longrightarrow> set ns \<subseteq> keys graph \<Longrightarrow>
     (\<forall>x \<in> set ns. \<forall>w \<in> gray (fst st) (snd st). (w, x) \<in> (graph_edges graph)\<^sup>+) \<Longrightarrow>
     \<exists>visit' sorted'. dfs_for graph ns st = Inr (visit', sorted') \<and> dfs_inv graph visit' sorted' \<and>
        gray visit' sorted' = gray (fst st) (snd st) \<and> set ns \<subseteq> set sorted' \<and>
        set (snd st) \<subseteq> set sorted'"
proof (induction graph u st and graph ns st rule: dfs_dfs_for.induct)
  case (1 graph start_node st)
  note sound = "1.prems"(1) and inv = "1.prems"(2) and key = "1.prems"(3)
    and isgray = "1.prems"(4) and reach = "1.prems"(5)
  have closed: "closed_graph graph" using sound by (simp add: sound_graph_def)
  from getitem_key [OF key]
  obtain end_nodes where e: "dict_getitem graph start_node = Inr end_nodes" ..
  have sub: "set end_nodes \<subseteq> keys graph" using closed_graphD [OF closed e] .
  have paths: "\<forall>x \<in> set end_nodes. \<forall>w \<in> gray (fst st) (snd st). (w, x) \<in> (graph_edges graph)\<^sup>+"
  proof (intro ballI)
    fix x w assume x: "x \<in> set end_nodes" and w: "w \<in> gray (fst st) (snd st)"
    have "(w, start_node) \<in> (graph_edges graph)\<^sup>*" using reach w by (rule bspec)
    moreover have "(start_node, x) \<in> graph_edges graph"
      using e x by (simp add: graph_edges_iff)
    ultimately show "(w, x) \<in> (graph_edges graph)\<^sup>+" by (rule rtrancl_into_trancl1)
  qed
  from "1.IH" [OF e sound inv sub paths]
  obtain visit' sorted' where r: "dfs_for graph end_nodes st = Inr (visit', sorted')"
      "dfs_inv graph visit' sorted'" "gray visit' sorted' = gray (fst st) (snd st)"
      "set end_nodes \<subseteq> set sorted'" "set (snd st) \<subseteq> set sorted'"
    by (elim exE conjE)
  have g: "start_node \<in> gray visit' sorted'" using isgray r(3) by simp
  note fin = dfs_inv_finish [OF r(2) g e r(4)]
  have res: "dfs graph start_node st = Inr (visit', sorted' @ [start_node])"
    by (subst dfs.simps) (simp add: e r(1))
  have "gray visit' (sorted' @ [start_node]) = gray (fst st) (snd st) - {start_node}"
    using fin(2) r(3) by simp
  moreover have "start_node \<in> set (sorted' @ [start_node])" by simp
  moreover have "set (snd st) \<subseteq> set (sorted' @ [start_node])" using r(5) by auto
  ultimately show ?case using res fin(1) by (intro exI conjI)
next
  case (2 graph st)
  then show ?case by (cases st) simp
next
  case (3 graph end_node rest visit sorted_nodes)
  note sound = "3.prems"(1) and paths = "3.prems"(4)
  have inv: "dfs_inv graph visit sorted_nodes" using "3.prems"(2) by simp
  have en: "end_node \<in> keys graph" and r: "set rest \<subseteq> keys graph"
    using "3.prems"(3) by simp_all
  have kv: "keys visit = keys graph" and sv: "set sorted_nodes \<subseteq> visited visit"
    using inv by (simp_all add: dfs_inv_def)
  have "end_node \<in> keys visit" using en kv by simp
  from getitem_key [OF this]
  obtain seen where s: "dict_getitem visit end_node = Inr seen" ..
  have paths_rest: "\<forall>x \<in> set rest. \<forall>w \<in> gray visit sorted_nodes. (w, x) \<in> (graph_edges graph)\<^sup>+"
    using paths by simp
  have paths_end: "\<forall>w \<in> gray visit sorted_nodes. (w, end_node) \<in> (graph_edges graph)\<^sup>+"
    using paths by simp
  show ?case
  proof (cases seen)
    case True
    then have nn: "\<not> \<not> seen" by simp
    have vis: "end_node \<in> visited visit" using getitem_visit [OF s] True by simp
    have "end_node \<notin> gray visit sorted_nodes"
    proof
      assume "end_node \<in> gray visit sorted_nodes"
      then have "(end_node, end_node) \<in> (graph_edges graph)\<^sup>+" using paths_end by (rule bspec [rotated])
      then show False using sound by (simp add: sound_graph_def)
    qed
    then have fin: "end_node \<in> set sorted_nodes" using vis by (simp add: gray_def)
    have inv': "dfs_inv graph (fst (visit, sorted_nodes)) (snd (visit, sorted_nodes))" using inv by simp
    have paths': "\<forall>x \<in> set rest. \<forall>w \<in> gray (fst (visit, sorted_nodes)) (snd (visit, sorted_nodes)).
        (w, x) \<in> (graph_edges graph)\<^sup>+" using paths_rest by simp
    from "3.IH"(3) [OF s nn sound inv' r paths']
    obtain visit' sorted' where res: "dfs_for graph rest (visit, sorted_nodes) = Inr (visit', sorted')"
        "dfs_inv graph visit' sorted'" "gray visit' sorted' = gray visit sorted_nodes"
        "set rest \<subseteq> set sorted'" "set sorted_nodes \<subseteq> set sorted'"
      by (elim exE conjE) simp
    have "dfs_for graph (end_node # rest) (visit, sorted_nodes) = Inr (visit', sorted')"
      using res(1) s True by simp
    moreover have "set (end_node # rest) \<subseteq> set sorted'" using res(4,5) fin by auto
    ultimately show ?thesis using res(2,3,5) by simp
  next
    case False
    let ?visit1 = "dict_setitem visit end_node True"
    have nv: "end_node \<notin> visited visit" using getitem_visit [OF s] False by simp
    have g1: "gray ?visit1 sorted_nodes = insert end_node (gray visit sorted_nodes)"
      using gray_mark [OF nv sv] .
    have ng: "end_node \<notin> gray visit sorted_nodes" using nv by (simp add: gray_def)
    have inv1: "dfs_inv graph (fst (?visit1, sorted_nodes)) (snd (?visit1, sorted_nodes))"
      using dfs_inv_mark [OF inv en] by simp
    have isgray: "end_node \<in> gray (fst (?visit1, sorted_nodes)) (snd (?visit1, sorted_nodes))"
      using g1 by simp
    have reach: "\<forall>w \<in> gray (fst (?visit1, sorted_nodes)) (snd (?visit1, sorted_nodes)).
        (w, end_node) \<in> (graph_edges graph)\<^sup>*"
    proof
      fix w assume "w \<in> gray (fst (?visit1, sorted_nodes)) (snd (?visit1, sorted_nodes))"
      then have "w = end_node \<or> w \<in> gray visit sorted_nodes" using g1 by simp
      then show "(w, end_node) \<in> (graph_edges graph)\<^sup>*"
      proof
        assume "w = end_node" then show ?thesis by simp
      next
        assume "w \<in> gray visit sorted_nodes"
        then have "(w, end_node) \<in> (graph_edges graph)\<^sup>+" using paths_end by (rule bspec [rotated])
        then show ?thesis by (rule trancl_into_rtrancl)
      qed
    qed
    from "3.IH"(1) [OF s False sound inv1 en isgray reach]
    obtain visit1 sorted1 where d: "dfs graph end_node (?visit1, sorted_nodes) = Inr (visit1, sorted1)"
        "dfs_inv graph visit1 sorted1"
        "gray visit1 sorted1 = gray ?visit1 sorted_nodes - {end_node}"
        "end_node \<in> set sorted1" "set sorted_nodes \<subseteq> set sorted1"
      by (elim exE conjE) simp
    have g2: "gray visit1 sorted1 = gray visit sorted_nodes" using d(3) g1 ng by simp
    have inv2: "dfs_inv graph (fst (visit1, sorted1)) (snd (visit1, sorted1))" using d(2) by simp
    have paths2: "\<forall>x \<in> set rest. \<forall>w \<in> gray (fst (visit1, sorted1)) (snd (visit1, sorted1)).
        (w, x) \<in> (graph_edges graph)\<^sup>+" using paths_rest g2 by simp
    from "3.IH"(2) [OF s False d(1) sound inv2 r paths2]
    obtain visit' sorted' where res: "dfs_for graph rest (visit1, sorted1) = Inr (visit', sorted')"
        "dfs_inv graph visit' sorted'" "gray visit' sorted' = gray visit1 sorted1"
        "set rest \<subseteq> set sorted'" "set sorted1 \<subseteq> set sorted'"
      by (elim exE conjE) simp
    have "dfs_for graph (end_node # rest) (visit, sorted_nodes) = Inr (visit', sorted')"
      using res(1) s False d(1) by simp
    moreover have "set (end_node # rest) \<subseteq> set sorted'" using res(4,5) d(4) by auto
    moreover have "set sorted_nodes \<subseteq> set sorted'" using res(5) d(5) by auto
    ultimately show ?thesis using res(2,3) g2 by simp
  qed
qed


lemma position_append_in: "x \<in> set xs \<Longrightarrow> position (xs @ ys) x = position xs x"
  by (induction xs) auto

lemma position_append_notin: "x \<notin> set xs \<Longrightarrow> position (xs @ ys) x = length xs + position ys x"
  by (induction xs) auto

lemma position_less: "x \<in> set xs \<Longrightarrow> position xs x < length xs"
  by (induction xs) auto

lemma before_precedes:
  assumes "distinct xs" "before xs x w"
  shows "precedes (rev xs) w x"
proof -
  obtain as bs where d: "xs = as @ bs" "x \<in> set as" "w \<in> set bs"
    using assms(2) unfolding before_def by (elim exE conjE)
  have xn: "x \<notin> set (rev bs)" using assms(1) d(1,2) by auto
  have wi: "w \<in> set (rev bs)" using d(3) by simp
  have "position (rev bs @ rev as) w < length (rev bs)"
    using position_append_in [OF wi] position_less [OF wi] by simp
  moreover have "position (rev bs @ rev as) x = length (rev bs) + position (rev as) x"
    using position_append_notin [OF xn] .
  ultimately have "position (rev xs) w < position (rev xs) x" using d(1) by simp
  then show ?thesis using d by (simp add: precedes_def)
qed

lemma before_in: "before xs x w \<Longrightarrow> x \<in> set xs"
  unfolding before_def by auto

lemma keys_visit0 [simp]: "keys (map (\<lambda>(node, nodes). (node, False)) graph) = keys graph"
  by (force simp: keys_def)

lemma visited_visit0 [simp]: "visited (map (\<lambda>(node, nodes). (node, False)) graph) = {}"
  by (auto simp: visited_def dest!: map_of_SomeD)

lemma adjacency_edges:
  assumes "adjacency g graph"
  shows "(u, v) \<in> graph_edges graph \<longleftrightarrow> u \<in> keys graph \<and> (u, v) \<in> edges g"
proof
  assume "(u, v) \<in> graph_edges graph"
  then obtain ns where ns: "map_of graph u = Some ns" "v \<in> set ns"
    unfolding graph_edges_def by auto
  then have "ns = get_output_nodes g u" using assms unfolding adjacency_def by blast
  then show "u \<in> keys graph \<and> (u, v) \<in> edges g"
    using ns by (auto simp: keys_dom edges_def)
next
  assume a: "u \<in> keys graph \<and> (u, v) \<in> edges g"
  then obtain ns where ns: "map_of graph u = Some ns" by (auto simp: keys_dom)
  then have "ns = get_output_nodes g u" using assms unfolding adjacency_def by blast
  then show "(u, v) \<in> graph_edges graph"
    using a ns by (auto simp: graph_edges_def edges_def)
qed

lemma adjacency_closed:
  assumes "adjacency g graph" "keys graph = reachable g starts"
  shows "closed_graph graph"
  unfolding closed_graph_def
proof (intro allI impI)
  fix n ns assume m: "map_of graph n = Some ns"
  then have "ns = get_output_nodes g n" using assms(1) unfolding adjacency_def by blast
  moreover have "n \<in> reachable g starts" using m assms(2) by (auto simp: keys_dom)
  ultimately show "set ns \<subseteq> keys graph"
    using reachable_closed [of g starts] assms(2) by blast
qed

lemma adjacency_acyclic:
  assumes "adjacency g graph" "\<forall>n \<in> keys graph. (n, n) \<notin> (edges g)\<^sup>+"
  shows "\<forall>w. (w, w) \<notin> (graph_edges graph)\<^sup>+"
proof (intro allI notI)
  fix w assume c: "(w, w) \<in> (graph_edges graph)\<^sup>+"
  have sub: "graph_edges graph \<subseteq> edges g"
    using adjacency_edges [OF assms(1)] by auto
  have "(w, w) \<in> (edges g)\<^sup>+" using c trancl_mono [OF _ sub] by blast
  moreover have "w \<in> keys graph"
  proof -
    obtain z where "(w, z) \<in> graph_edges graph" using c by (meson tranclD)
    then show ?thesis using adjacency_edges [OF assms(1)] by blast
  qed
  ultimately show False using assms(2) by blast
qed


lemma dfs_from_returns:
  assumes adj: "adjacency g graph" and k: "keys graph = reachable g starts"
  shows "\<exists>visit' sorted'. dfs_from graph starts (map (\<lambda>(node, nodes). (node, False)) graph, []) = Inr (visit', sorted')"
proof -
  let ?st = "(map (\<lambda>(node, nodes). (node, False)) graph, [] :: 'a list)"
  have closed: "closed_graph graph" using adjacency_closed [OF adj k] .
  have kv: "keys (fst ?st) = keys graph" by simp
  have s: "set starts \<subseteq> keys graph" using k by (auto simp: reachable_def)
  from dfs_returns(2) [OF closed kv s]
  show ?thesis unfolding dfs_from_eq by (elim exE conjE) (intro exI)
qed

lemma dfs_from_order:
  assumes adj: "adjacency g graph" and k: "keys graph = reachable g starts"
    and acyc: "\<forall>n \<in> reachable g starts. (n, n) \<notin> (edges g)\<^sup>+"
  shows "\<exists>visit' sorted'.
     dfs_from graph starts (map (\<lambda>(node, nodes). (node, False)) graph, []) = Inr (visit', sorted') \<and>
     set sorted' = reachable g starts \<and> distinct sorted' \<and>
     (\<forall>u v. u \<in> reachable g starts \<and> (u, v) \<in> edges g \<longrightarrow> precedes (rev sorted') u v)"
proof -
  let ?visit = "map (\<lambda>(node, nodes). (node, False)) graph"
  let ?st = "(?visit, [] :: 'a list)"
  have closed: "closed_graph graph" using adjacency_closed [OF adj k] .
  have sound: "sound_graph graph"
    using closed adjacency_acyclic [OF adj] acyc k by (simp add: sound_graph_def)
  have inv: "dfs_inv graph (fst ?st) (snd ?st)" by (simp add: dfs_inv_def)
  have s: "set starts \<subseteq> keys graph" using k by (auto simp: reachable_def)
  have paths: "\<forall>x \<in> set starts. \<forall>w \<in> gray (fst ?st) (snd ?st). (w, x) \<in> (graph_edges graph)\<^sup>+"
    by (simp add: gray_def)
  from dfs_order(2) [OF sound inv s paths]
  obtain visit' sorted' where res: "dfs_for graph starts ?st = Inr (visit', sorted')"
      "dfs_inv graph visit' sorted'" "set starts \<subseteq> set sorted'"
    by (elim exE conjE)
  have d: "distinct sorted'" and sv: "set sorted' \<subseteq> visited visit'" and kv': "keys visit' = keys graph"
    and succ: "\<And>w x. w \<in> set sorted' \<Longrightarrow> (w, x) \<in> graph_edges graph \<Longrightarrow> before sorted' x w"
    using res(2) by (simp_all add: dfs_inv_def)
  have sub1: "set sorted' \<subseteq> reachable g starts"
  proof
    fix w assume "w \<in> set sorted'"
    then have "w \<in> visited visit'" using sv by blast
    then have "w \<in> keys visit'" by (auto simp: visited_def keys_dom)
    then show "w \<in> reachable g starts" using kv' k by simp
  qed
  have step: "v \<in> set sorted'" if "u \<in> set sorted'" "(u, v) \<in> edges g" for u v
  proof -
    have "u \<in> keys graph" using that(1) sub1 k by blast
    then have "(u, v) \<in> graph_edges graph" using adjacency_edges [OF adj] that(2) by blast
    then have "before sorted' v u" by (rule succ [OF that(1)])
    then show ?thesis by (rule before_in)
  qed
  have sub2: "reachable g starts \<subseteq> set sorted'"
  proof
    fix v assume "v \<in> reachable g starts"
    then obtain u where u: "u \<in> set starts" "(u, v) \<in> (edges g)\<^sup>*" by (auto simp: reachable_def)
    from u(2) show "v \<in> set sorted'"
    proof (induction rule: rtrancl_induct)
      case base
      then show ?case using u(1) res(3) by blast
    next
      case (step y z)
      then show ?case using \<open>\<And>u v. u \<in> set sorted' \<Longrightarrow> (u, v) \<in> edges g \<Longrightarrow> v \<in> set sorted'\<close> by blast
    qed
  qed
  have order: "precedes (rev sorted') u v" if "u \<in> reachable g starts" "(u, v) \<in> edges g" for u v
  proof -
    have us: "u \<in> set sorted'" using that(1) sub2 by blast
    have "u \<in> keys graph" using that(1) k by simp
    then have "(u, v) \<in> graph_edges graph" using adjacency_edges [OF adj] that(2) by blast
    then have "before sorted' v u" by (rule succ [OF us])
    then show ?thesis by (rule before_precedes [OF d])
  qed
  have "set sorted' = reachable g starts" using sub1 sub2 by blast
  then show ?thesis using res(1) d order unfolding dfs_from_eq by blast
qed


lemma topological_sort_unfold:
  "topological_sort g start_nodes all_nodes =
    (if start_set g start_nodes all_nodes = [] then Some (Inr [])
     else if filter (has_output_node g) (start_set g start_nodes all_nodes) = []
       then Some (Inr (start_set g start_nodes all_nodes))
     else (case build_graph g (start_set g start_nodes all_nodes) of
             None \<Rightarrow> None
           | Some graph \<Rightarrow>
               if graph = [] then Some (Inr [])
               else (case dfs_from graph (start_set g start_nodes all_nodes)
                            (map (\<lambda>(node, nodes). (node, False)) graph, []) of
                       Inl e \<Rightarrow> Some (Inl e)
                     | Inr (visit', sorted_nodes) \<Rightarrow> Some (Inr (rev sorted_nodes)))))"
  unfolding topological_sort_def start_set_def Let_def by (rule refl)

text \<open>
  Claim C9. Whenever finitely many nodes are reachable from the start nodes, with or
  without cycles among them, \<^verbatim>\<open>topological_sort\<close> returns, and returns a list: building
  the graph ends because each round of the \<^verbatim>\<open>while\<close> loop adds a key or empties the list of
  nodes to look at, and the traversal ends because a node is marked before \<^verbatim>\<open>dfs\<close> is
  called on it and is never called on again (the termination proof of \<open>dfs\<close>: the
  number of unmarked nodes falls with every call).
\<close>

theorem topological_sort_terminates:
  assumes "finite (reachable g (start_set g start_nodes all_nodes))"
  shows "\<exists>r. topological_sort g start_nodes all_nodes = Some (Inr r)"
proof -
  let ?S = "start_set g start_nodes all_nodes"
  obtain graph where graph: "build_graph g ?S = Some graph" "adjacency g graph"
      "keys graph = reachable g ?S"
    using build_graph_returns [OF assms] by (elim exE conjE)
  obtain visit' sorted' where
    d: "dfs_from graph ?S (map (\<lambda>(node, nodes). (node, False)) graph, []) = Inr (visit', sorted')"
    using dfs_from_returns [OF graph(2,3)] by (elim exE)
  show ?thesis
    unfolding topological_sort_unfold using graph(1) d by simp
qed

lemma topological_sort_order:
  assumes fin: "finite (reachable g (start_set g start_nodes all_nodes))"
    and acyc: "\<forall>n \<in> reachable g (start_set g start_nodes all_nodes). (n, n) \<notin> (edges g)\<^sup>+"
    and out: "\<exists>n \<in> set (start_set g start_nodes all_nodes). has_output_node g n"
  shows "\<exists>r. topological_sort g start_nodes all_nodes = Some (Inr r) \<and>
           set r = reachable g (start_set g start_nodes all_nodes) \<and> distinct r \<and>
           (\<forall>u v. u \<in> reachable g (start_set g start_nodes all_nodes) \<and> (u, v) \<in> edges g \<longrightarrow>
                  precedes r u v)"
proof -
  let ?S = "start_set g start_nodes all_nodes"
  obtain graph where graph: "build_graph g ?S = Some graph" "adjacency g graph"
      "keys graph = reachable g ?S"
    using build_graph_returns [OF fin] by (elim exE conjE)
  obtain visit' sorted' where
    d: "dfs_from graph ?S (map (\<lambda>(node, nodes). (node, False)) graph, []) = Inr (visit', sorted')"
      "set sorted' = reachable g ?S" "distinct sorted'"
      "\<forall>u v. u \<in> reachable g ?S \<and> (u, v) \<in> edges g \<longrightarrow> precedes (rev sorted') u v"
    using dfs_from_order [OF graph(2,3) acyc] by (elim exE conjE)
  have ne: "?S \<noteq> []" using out by auto
  have f: "filter (has_output_node g) ?S \<noteq> []" using out by (simp add: filter_empty_conv)
  have "set ?S \<subseteq> keys graph" using graph(3) by (auto simp: reachable_def)
  then have gne: "graph \<noteq> []" using ne by (auto simp: keys_def)
  have "topological_sort g start_nodes all_nodes = Some (Inr (rev sorted'))"
    unfolding topological_sort_unfold using graph(1) d(1) ne f gne by simp
  then show ?thesis using d(2,3,4) by simp
qed


lemma reachable_within:
  assumes "set starts \<subseteq> F" "\<forall>n \<in> F. set (get_output_nodes g n) \<subseteq> F"
  shows "reachable g starts \<subseteq> F"
proof
  fix v assume "v \<in> reachable g starts"
  then obtain u where u: "u \<in> set starts" "(u, v) \<in> (edges g)\<^sup>*" by (auto simp: reachable_def)
  from u(2) show "v \<in> F"
  proof (induction rule: rtrancl_induct)
    case base
    then show ?case using u(1) assms(1) by blast
  next
    case (step y z)
    then show ?case using assms(2) by (auto simp: edges_def)
  qed
qed

lemma diamond_outputs:
  "get_output_nodes diamond n =
     (if n = 0 then [1, 2] else if n = 1 then [3] else if n = 2 then [3] else [])"
  by (simp add: get_output_nodes_def diamond_def example_graph_def numeral_2_eq_2)

lemma two_cycle_outputs:
  "get_output_nodes two_cycle n = (if n = 0 then [1] else if n = 1 then [0] else [])"
  by (simp add: get_output_nodes_def two_cycle_def example_graph_def)

lemma diamond_finite: "finite (reachable diamond (start_set diamond [0] []))"
proof -
  have "reachable diamond [0] \<subseteq> {0, 1, 2, 3}"
    by (rule reachable_within) (simp_all add: diamond_outputs)
  then show ?thesis by (simp add: start_set_def finite_subset)
qed

lemma two_cycle_finite: "finite (reachable two_cycle (start_set two_cycle [0] []))"
proof -
  have "reachable two_cycle [0] \<subseteq> {0, 1}"
    by (rule reachable_within) (simp_all add: two_cycle_outputs)
  then show ?thesis by (simp add: start_set_def finite_subset)
qed

lemma diamond_acyclic: "(n, n) \<notin> (edges diamond)\<^sup>+"
proof
  assume c: "(n, n) \<in> (edges diamond)\<^sup>+"
  have up: "edges diamond \<subseteq> {(u, v). u < v}"
    by (auto simp: edges_def diamond_outputs split: if_splits)
  have "(u, v) \<in> (edges diamond)\<^sup>+ \<Longrightarrow> u < v" for u v
  proof (induction rule: trancl_induct)
    case (base y)
    then show ?case using up by blast
  next
    case (step y z)
    then have "y < z" using up by blast
    then show ?case using step.IH by simp
  qed
  from this [OF c] show False by simp
qed

lemma two_cycle_cyclic: "(0, 0) \<in> (edges two_cycle)\<^sup>+"
proof -
  have "(0, 1) \<in> edges two_cycle" "(1, 0) \<in> edges two_cycle"
    by (simp_all add: edges_def two_cycle_outputs)
  then show ?thesis by (rule trancl_into_trancl2 [OF _ r_into_trancl])
qed

lemma diamond_sorted: "topological_sort diamond [0] [] = Some (Inr [0, 2, 1, 3])"
  by code_simp

lemma two_cycle_sorted: "topological_sort two_cycle [0] [] = Some (Inr [0, 1])"
  by code_simp

text \<open>
  Claim C4. When the nodes reachable from the start nodes are finitely many and lie on no
  cycle, and some start node has a pipe on an output port (so that the graph is built),
  the result lists exactly the reachable nodes, each once, and every edge's source comes
  before its target. For the diamond started from A the result has four elements, A
  first, D last, B and C before D.
\<close>

theorem topological_order:
  assumes "finite (reachable g (start_set g start_nodes all_nodes))"
    and "\<forall>n \<in> reachable g (start_set g start_nodes all_nodes). (n, n) \<notin> (edges g)\<^sup>+"
    and "\<exists>n \<in> set (start_set g start_nodes all_nodes). has_output_node g n"
  shows "(\<exists>r. topological_sort g start_nodes all_nodes = Some (Inr r) \<and>
           set r = reachable g (start_set g start_nodes all_nodes) \<and> distinct r \<and>
           (\<forall>u v. u \<in> reachable g (start_set g start_nodes all_nodes) \<and> (u, v) \<in> edges g \<longrightarrow>
                  precedes r u v)) \<and>
         (\<exists>r. topological_sort diamond [0] [] = Some (Inr r) \<and> length r = 4 \<and>
              hd r = 0 \<and> last r = 3 \<and> precedes r 1 3 \<and> precedes r 2 3)"
proof -
  have "length [0, 2, 1, 3 :: nat] = 4 \<and> hd [0, 2, 1, 3 :: nat] = 0 \<and> last [0, 2, 1, 3 :: nat] = 3 \<and>
        precedes [0, 2, 1, 3 :: nat] 1 3 \<and> precedes [0, 2, 1, 3 :: nat] 2 3"
    by (simp add: precedes_def)
  then have "\<exists>r. topological_sort diamond [0] [] = Some (Inr r) \<and> length r = 4 \<and>
              hd r = 0 \<and> last r = 3 \<and> precedes r 1 3 \<and> precedes r 2 3"
    using diamond_sorted by blast
  then show ?thesis using topological_sort_order [OF assms] by (intro conjI)
qed

theorem topological_order_witness:
  "finite (reachable diamond (start_set diamond [0] [])) \<and> has_output_node diamond 0 \<and>
   (0, 0) \<notin> (edges diamond)\<^sup>+ \<and>
   (\<exists>r. topological_sort diamond [0] [] = Some (Inr r) \<and>
        set r = reachable diamond (start_set diamond [0] []) \<and> distinct r \<and>
        r = [0, 2, 1, 3])"
proof -
  have a: "\<forall>n \<in> reachable diamond (start_set diamond [0] []). (n, n) \<notin> (edges diamond)\<^sup>+"
    using diamond_acyclic by blast
  have o: "has_output_node diamond 0" by (simp add: example_graph_defs)
  then have b: "\<exists>n \<in> set (start_set diamond [0] []). has_output_node diamond n"
    by (simp add: start_set_def)
  obtain r where r: "topological_sort diamond [0] [] = Some (Inr r)"
      "set r = reachable diamond (start_set diamond [0] [])" "distinct r"
    using topological_order [OF diamond_finite a b] by (elim exE conjE)
  have "r = [0, 2, 1, 3]" using r(1) diamond_sorted by simp
  then show ?thesis using r diamond_finite o diamond_acyclic by blast
qed

theorem topological_sort_terminates_witness:
  "finite (reachable two_cycle (start_set two_cycle [0] [])) \<and>
   (0, 0) \<in> (edges two_cycle)\<^sup>+ \<and>
   (\<exists>r. topological_sort two_cycle [0] [] = Some (Inr r)) \<and>
   topological_sort two_cycle [0] [] = Some (Inr [0, 1])"
  using topological_sort_terminates [OF two_cycle_finite] two_cycle_finite two_cycle_cyclic
    two_cycle_sorted by (intro conjI)

end
